theory Spec2Isabelle
  imports Complex_Main "HOL-Library.Word" "HOL-Library.Multiset"
begin

unbundle bit_operations_syntax

section \<open>Interval arithmetic and the polynomial evaluator (sim\_propagate.cpp)\<close>

text \<open>
  The \<open>double\<close> values of \<open>detail::ival\<close> are kept abstract: an arbitrary type with
  an addition, a multiplication and a strict comparison. No law of arithmetic is assumed
  about the three operations, so every statement below about the shape of a computation
  also holds when they are read as the IEEE-754 binary64 operations of the source. The
  type \<open>double\<close> of the section on binary floating point is such a type.
\<close>

text \<open>\<open>std::min(a, b)\<close> is \<open>(b < a) ? b : a\<close> and \<open>std::max(a, b)\<close> is
  \<open>(a < b) ? b : a\<close>.\<close>

definition std_min :: "'a::ord \<Rightarrow> 'a \<Rightarrow> 'a" where
  "std_min a b = (if b < a then b else a)"

definition std_max :: "'a::ord \<Rightarrow> 'a \<Rightarrow> 'a" where
  "std_max a b = (if a < b then b else a)"

record 'a ival =
  lower :: 'a
  upper :: 'a

text \<open>The one-argument constructor \<open>ival(double val)\<close>.\<close>

definition ival_of :: "'a \<Rightarrow> 'a ival" where
  "ival_of val = \<lparr>lower = val, upper = val\<rparr>"

text \<open>\<open>operator+(ival, ival)\<close> and \<open>operator*(ival, ival)\<close>.\<close>

definition ival_add :: "'a::plus ival \<Rightarrow> 'a ival \<Rightarrow> 'a ival" where
  "ival_add a b = \<lparr>lower = lower a + lower b, upper = upper a + upper b\<rparr>"

definition ival_mul :: "'a::{times,ord} ival \<Rightarrow> 'a ival \<Rightarrow> 'a ival" where
  "ival_mul a b =
     (let tmp1 = lower a * lower b;
          tmp2 = lower a * upper b;
          tmp3 = upper a * lower b;
          tmp4 = upper a * upper b;
          l = std_min (std_min tmp1 tmp2) (std_min tmp3 tmp4);
          u = std_max (std_max tmp1 tmp2) (std_max tmp3 tmp4)
      in \<lparr>lower = l, upper = u\<rparr>)"

text \<open>
  The lambda \<open>horner_eval\<close>: \<open>acc\<close> starts as \<open>ival(ptr[order])\<close> and the loop
  \<open>for (o = 1; o <= order; ++o)\<close> performs \<open>acc = ival(ptr[order - o]) + acc * h_int\<close>.
  \<open>horner_loop\<close> is the loop from the counter value \<open>o\<close> on; \<open>ptr\<close> is the slice of
  \<open>order + 1\<close> coefficients of one substep and one coordinate.
\<close>

function horner_loop ::
  "nat \<Rightarrow> 'a::{plus,times,ord} ival \<Rightarrow> 'a list \<Rightarrow> nat \<Rightarrow> 'a ival \<Rightarrow> 'a ival" where
  "horner_loop order h_int ptr o' acc =
     (if o' \<le> order
      then horner_loop order h_int ptr (o' + 1)
             (ival_add (ival_of (ptr ! (order - o'))) (ival_mul acc h_int))
      else acc)"
  by pat_completeness auto
termination
  by (relation "measure (\<lambda>(order, h_int, ptr, o', acc). order + 1 - o')") auto

declare horner_loop.simps [simp del]

definition horner_eval :: "nat \<Rightarrow> 'a::{plus,times,ord} ival \<Rightarrow> 'a list \<Rightarrow> 'a ival" where
  "horner_eval order h_int ptr = horner_loop order h_int ptr 1 (ival_of (ptr ! order))"

text \<open>
  Two closed forms to compare the evaluator with. \<open>horner_ascending\<close> is
  \<open>c[0] + (c[1] + (\<dots> + (c[O-1] + c[O]\<cdot>h)\<cdot>h \<dots>)\<cdot>h)\<cdot>h\<close>: the innermost term uses the
  last coefficient. \<open>horner_spec\<close> follows the words of the specification,
  \<open>c[O] + (c[O-1] + (\<dots> + (c[1] + c[0]\<cdot>h)\<cdot>h \<dots>)\<cdot>h)\<cdot>h\<close>: the innermost term uses
  \<open>c[0]\<close> and the outermost addition uses \<open>c[O]\<close>.
\<close>

fun horner_ascending :: "'a::{plus,times,ord} list \<Rightarrow> 'a ival \<Rightarrow> 'a ival" where
  "horner_ascending [] h = ival_of (hd [])"
| "horner_ascending [c] h = ival_of c"
| "horner_ascending (c # cs) h = ival_add (ival_of c) (ival_mul (horner_ascending cs h) h)"

definition horner_spec :: "'a::{plus,times,ord} list \<Rightarrow> 'a ival \<Rightarrow> 'a ival" where
  "horner_spec c h = horner_ascending (rev c) h"

section \<open>Single-precision values and 4D boxes\<close>

text \<open>
  The \<open>float\<close> values of the bounding boxes are only ever compared, by \<open>std::min\<close> and
  \<open>std::max\<close>. They are modelled by their order: the two infinities and, between them,
  the finite values (embedded in the reals). NaN is left out; the source excludes it
  ("we already checked that all AABBs are finite").
\<close>

datatype float = NInf | Fin real | PInf

instantiation float :: linorder
begin

fun less_eq_float :: "float \<Rightarrow> float \<Rightarrow> bool" where
  "less_eq_float NInf b = True"
| "less_eq_float (Fin a) NInf = False"
| "less_eq_float (Fin a) (Fin b) = (a \<le> b)"
| "less_eq_float (Fin a) PInf = True"
| "less_eq_float PInf NInf = False"
| "less_eq_float PInf (Fin b) = False"
| "less_eq_float PInf PInf = True"

definition less_float :: "float \<Rightarrow> float \<Rightarrow> bool" where
  "less_float a b = (a \<le> b \<and> \<not> b \<le> a)"

instance
proof
  fix a b c :: float
  show "(a < b) = (a \<le> b \<and> \<not> b \<le> a)" by (simp add: less_float_def)
  show "a \<le> a" by (cases a) simp_all
  show "a \<le> b \<Longrightarrow> b \<le> c \<Longrightarrow> a \<le> c" by (cases a; cases b; cases c) simp_all
  show "a \<le> b \<Longrightarrow> b \<le> a \<Longrightarrow> a = b" by (cases a; cases b) simp_all
  show "a \<le> b \<or> b \<le> a" by (cases a; cases b) auto
qed

end

text \<open>\<open>std::array<float, 4>\<close>: the coordinates x, y, z, r.\<close>

type_synonym float4 = "float \<times> float \<times> float \<times> float"

text \<open>The constants \<open>default_lb\<close> and \<open>default_ub\<close> (\<open>finf\<close> is \<open>PInf\<close>).\<close>

definition default_lb :: float4 where
  "default_lb = (PInf, PInf, PInf, PInf)"

definition default_ub :: float4 where
  "default_ub = (NInf, NInf, NInf, NInf)"

text \<open>The loops \<open>for (i = 0; i < 4; ++i) a[i] = std::min(a[i], b[i])\<close>, and the same
  with \<open>std::max\<close>.\<close>

fun min4 :: "float4 \<Rightarrow> float4 \<Rightarrow> float4" where
  "min4 (a0, a1, a2, a3) (b0, b1, b2, b3) =
     (std_min a0 b0, std_min a1 b1, std_min a2 b2, std_min a3 b3)"

fun max4 :: "float4 \<Rightarrow> float4 \<Rightarrow> float4" where
  "max4 (a0, a1, a2, a3) (b0, b1, b2, b3) =
     (std_max a0 b0, std_max a1 b1, std_max a2 b2, std_max a3 b3)"

section \<open>Construction of the BVH tree of one chunk (sim\_bvh.cpp)\<close>

text \<open>
  Exceptions are values of type \<open>error\<close>. The \<open>assert\<close>s of the source are checked
  unless the macro \<open>NDEBUG\<close> is defined: the model takes the flag \<open>ndebug\<close> as a
  parameter, and a failed assertion, which ends the program, is the value
  \<open>Assertion_Failed\<close>. The model has the two assertions of step 4 on the box of a leaf,
  \<open>assert(cur_node.lb != default_lb)\<close> and \<open>assert(cur_node.ub != default_ub)\<close>
  (lines 348 and 349). The other assertions of the body of the loop over the chunks are
  not part of the model: those on indices and counts (lines 195, 295, 334, 361 to 364,
  431 and 476), on the split index inside the branch that has tested it (214 and 235),
  on the split pointer (279), on the box of a leaf before it is computed and when it is
  computed again (266, 267, 456 and 457), and on the last level holding leaves only
  (421). Nor is \<open>verify_bvh_trees_parallel\<close>, which a build with assertions calls once
  the trees of all chunks are built.
\<close>

datatype error = Overflow_Error | Bad_Numeric_Cast | Assertion_Failed

text \<open>
  \<open>sim_data::bvh_node\<close>. The fields \<open>begin\<close> and \<open>end\<close> are called \<open>nbegin\<close> and
  \<open>nend\<close> here. \<open>std::uint32_t\<close> fields are natural numbers, with the wrap-around of
  the 32-bit operations written out by \<open>u32\<close> and \<open>u32_sub\<close>; \<open>std::int32_t\<close> fields
  are integers.
\<close>

record bvh_node =
  nbegin :: nat
  nend :: nat
  parent :: int
  left :: int
  right :: int
  lb :: float4
  ub :: float4
  nn_level :: nat
  split_idx :: nat

definition u32 :: "nat \<Rightarrow> nat" where
  "u32 n = n mod 2 ^ 32"

definition u32_sub :: "nat \<Rightarrow> nat \<Rightarrow> nat" where
  "u32_sub a b = (a + 2 ^ 32 - b mod 2 ^ 32) mod 2 ^ 32"

definition UINT32_MAX :: nat where
  "UINT32_MAX = 2 ^ 32 - 1"

definition INT32_MAX :: nat where
  "INT32_MAX = 2 ^ 31 - 1"

definition SIZE_MAX :: nat where
  "SIZE_MAX = 2 ^ 64 - 1"

text \<open>
  \<open>std::lower_bound(first, first + len, val, comp)\<close> as the standard library
  implements it, a binary search by halving: \<open>cmp i\<close> stands for the comparison of the
  element at position \<open>i\<close> with the searched value.
\<close>

function lower_bound :: "(nat \<Rightarrow> bool) \<Rightarrow> nat \<Rightarrow> nat \<Rightarrow> nat" where
  "lower_bound cmp first len =
     (if 0 < len
      then (let half = len div 2; middle = first + half
            in if cmp middle
               then lower_bound cmp (middle + 1) (len - half - 1)
               else lower_bound cmp first half)
      else first)"
  by pat_completeness auto
termination
  by (relation "measure (\<lambda>(cmp, first, len). len)") auto

declare lower_bound.simps [simp del]

text \<open>
  The search of the source: the first position in \<open>[b, e)\<close> whose Morton code has the bit
  of index \<open>s\<close> (counted from the most significant bit) set. The comparator is
  \<open>(mcode & mask) < 1u\<close> with \<open>mask = 1 << (63 - s)\<close>.
\<close>

definition split_mask :: "nat \<Rightarrow> 64 word" where
  "split_mask s = push_bit (63 - s) 1"

definition split_search :: "64 word list \<Rightarrow> nat \<Rightarrow> nat \<Rightarrow> nat \<Rightarrow> nat" where
  "split_search srt_mcodes b e s =
     lower_bound (\<lambda>i. (srt_mcodes ! i AND split_mask s) < 1) b (e - b)"

text \<open>
  The loop \<open>while (split_ptr == mcodes_begin || split_ptr == mcodes_end)\<close>. The result is
  \<open>(is_leaf_node, split_idx, split_ptr)\<close>. The source tests \<open>split_idx == 63\<close>; the
  loop is entered with \<open>split_idx \<le> 63\<close> only, where that test and \<open>63 \<le> s\<close> agree.
\<close>

function find_split :: "64 word list \<Rightarrow> nat \<Rightarrow> nat \<Rightarrow> nat \<Rightarrow> nat \<Rightarrow> bool \<times> nat \<times> nat" where
  "find_split srt_mcodes b e s split_ptr =
     (if split_ptr = b \<or> split_ptr = e
      then (if 63 \<le> s then (True, s, split_ptr)
            else find_split srt_mcodes b e (s + 1) (split_search srt_mcodes b e (s + 1)))
      else (False, s, split_ptr))"
  by pat_completeness auto
termination
  by (relation "measure (\<lambda>(srt_mcodes, b, e, s, split_ptr). 63 - s)") auto

declare find_split.simps [simp del]

text \<open>The AABB of a leaf: the loop over \<open>pidx\<close> from \<open>begin\<close> to \<open>end\<close>.\<close>

definition leaf_aabb :: "float4 list \<Rightarrow> float4 list \<Rightarrow> bvh_node \<Rightarrow> bvh_node" where
  "leaf_aabb srt_lbs srt_ubs cur_node =
     fold (\<lambda>pidx n. n\<lparr>lb := min4 (lb n) (srt_lbs ! pidx), ub := max4 (ub n) (srt_ubs ! pidx)\<rparr>)
       [nbegin cur_node ..< nend cur_node] cur_node"

text \<open>
  Step 1 for one node: decide whether the node is a leaf and, for an internal node, the
  number of particles of its left child. The result is the updated node with the values
  written to \<open>nc_buf\<close> and \<open>nplc_buf\<close>.
\<close>

definition classify ::
  "64 word list \<Rightarrow> float4 list \<Rightarrow> float4 list \<Rightarrow> bvh_node \<Rightarrow> bvh_node \<times> nat \<times> nat" where
  "classify srt_mcodes srt_lbs srt_ubs cur_node =
     (let b = nbegin cur_node; e = nend cur_node;
          (is_leaf_node, s, split_ptr) =
            (if 1 < u32_sub e b \<and> split_idx cur_node \<le> 63
             then find_split srt_mcodes b e (split_idx cur_node)
                    (split_search srt_mcodes b e (split_idx cur_node))
             else (True, split_idx cur_node, 0));
          cur_node = cur_node\<lparr>split_idx := s\<rparr>
      in if is_leaf_node then (leaf_aabb srt_lbs srt_ubs cur_node, 0, 0)
         else (cur_node, 2, split_ptr - b))"

text \<open>\<open>std::vector::resize\<close> with the value of new elements given.\<close>

definition resize :: "nat \<Rightarrow> 'a \<Rightarrow> 'a list \<Rightarrow> 'a list" where
  "resize n v xs = take n xs @ replicate (n - length xs) v"

text \<open>Step 1 over the nodes of the level, with the count of leaves
  (\<open>parallel_reduce\<close>, run in index order).\<close>

definition step1_node ::
  "64 word list \<Rightarrow> float4 list \<Rightarrow> float4 list \<Rightarrow> nat \<Rightarrow> nat \<Rightarrow>
   bvh_node list \<times> nat list \<times> nat list \<times> nat \<Rightarrow> bvh_node list \<times> nat list \<times> nat list \<times> nat" where
  "step1_node srt_mcodes srt_lbs srt_ubs n_begin node_idx acc =
     (case acc of (tree, nc_buf, nplc_buf, n_leaf_nodes) \<Rightarrow>
        (case classify srt_mcodes srt_lbs srt_ubs (tree ! node_idx) of
           (cur_node, nc, nplc) \<Rightarrow>
             (tree[node_idx := cur_node],
              nc_buf[node_idx - n_begin := nc],
              nplc_buf[node_idx - n_begin := nplc],
              if nc = 0 then u32 (n_leaf_nodes + 1) else n_leaf_nodes)))"

text \<open>Step 3: the inclusive prefix sum of \<open>nc_buf\<close> into \<open>ps_buf\<close>
  (\<open>parallel_scan\<close>, run in index order).\<close>

definition scan_node :: "nat list \<Rightarrow> nat \<Rightarrow> nat list \<times> nat \<Rightarrow> nat list \<times> nat" where
  "scan_node nc_buf i acc =
     (case acc of (ps_buf, temp) \<Rightarrow>
        (let temp = u32 (temp + nc_buf ! i) in (ps_buf[i := temp], temp)))"

definition prefix_sum :: "nat list \<Rightarrow> nat list \<Rightarrow> nat list" where
  "prefix_sum nc_buf ps_buf = fst (fold (scan_node nc_buf) [0 ..< length nc_buf] (ps_buf, 0))"

text \<open>
  Step 4 for one node: set \<open>nn_level\<close>; for an internal node, set the indices of the
  children and initialise the two children. \<open>left_child\<close> and \<open>right_child\<close> are the
  values written to \<open>lc\<close> and \<open>rc\<close>. \<open>boost::numeric_cast\<close> to \<open>std::int32_t\<close>
  throws when its argument exceeds \<open>INT32_MAX\<close>.
\<close>

definition left_child :: "nat \<Rightarrow> bvh_node \<Rightarrow> nat \<Rightarrow> bvh_node" where
  "left_child node_idx cur_node lsize =
     \<lparr>nbegin = nbegin cur_node,
      nend = u32 (nbegin cur_node + lsize),
      parent = int node_idx, left = - 1, right = - 1,
      lb = default_lb, ub = default_ub, nn_level = 0,
      split_idx = u32 (split_idx cur_node + 1)\<rparr>"

definition right_child :: "nat \<Rightarrow> bvh_node \<Rightarrow> nat \<Rightarrow> bvh_node" where
  "right_child node_idx cur_node lsize =
     \<lparr>nbegin = u32 (nbegin cur_node + lsize),
      nend = nend cur_node,
      parent = int node_idx, left = - 1, right = - 1,
      lb = default_lb, ub = default_ub, nn_level = 0,
      split_idx = u32 (split_idx cur_node + 1)\<rparr>"

definition step4_node ::
  "bool \<Rightarrow> nat \<Rightarrow> nat \<Rightarrow> nat \<Rightarrow> nat list \<Rightarrow> nat list \<Rightarrow> nat list \<Rightarrow> bvh_node list \<Rightarrow> nat \<Rightarrow>
   error + bvh_node list" where
  "step4_node ndebug n_begin cur_n_nodes cur_tree_size nc_buf nplc_buf ps_buf tree node_idx =
     (let cur_node = tree ! node_idx;
          nc = nc_buf ! (node_idx - n_begin);
          cur_node = cur_node\<lparr>nn_level := cur_n_nodes\<rparr>
      in if nc = 0
         then (if ndebug then Inr (tree[node_idx := cur_node])
               else if lb cur_node = default_lb then Inl Assertion_Failed
               else if ub cur_node = default_ub then Inl Assertion_Failed
               else Inr (tree[node_idx := cur_node]))
         else
           (let lsize = nplc_buf ! (node_idx - n_begin);
                lc_idx = cur_tree_size + ps_buf ! (node_idx - n_begin) - 2
            in if INT32_MAX < lc_idx \<or> INT32_MAX < lc_idx + 1 \<or> INT32_MAX < node_idx
               then Inl Bad_Numeric_Cast
               else
                 (let cur_node = cur_node\<lparr>left := int lc_idx, right := int (lc_idx + 1)\<rparr>
                  in Inr (tree[node_idx := cur_node,
                               lc_idx := left_child node_idx cur_node lsize,
                               lc_idx + 1 := right_child node_idx cur_node lsize]))))"

fun step4_loop ::
  "bool \<Rightarrow> nat \<Rightarrow> nat \<Rightarrow> nat \<Rightarrow> nat list \<Rightarrow> nat list \<Rightarrow> nat list \<Rightarrow> nat list \<Rightarrow>
   bvh_node list \<Rightarrow> error + bvh_node list" where
  "step4_loop ndebug n_begin cur_n_nodes cur_tree_size nc_buf nplc_buf ps_buf [] tree = Inr tree"
| "step4_loop ndebug n_begin cur_n_nodes cur_tree_size nc_buf nplc_buf ps_buf (node_idx # rest) tree =
     (case step4_node ndebug n_begin cur_n_nodes cur_tree_size nc_buf nplc_buf ps_buf tree
             node_idx of
        Inl e \<Rightarrow> Inl e
      | Inr tree' \<Rightarrow>
          step4_loop ndebug n_begin cur_n_nodes cur_tree_size nc_buf nplc_buf ps_buf rest tree')"

text \<open>
  The backward pass. \<open>pull_up_node\<close> is the body of the loop over the nodes of a level;
  \<open>backward_loop\<close> is the \<open>while (true)\<close> loop over the levels, from the penultimate
  one up to the root.
\<close>

definition pull_up_node :: "nat \<Rightarrow> bvh_node list \<Rightarrow> bvh_node list" where
  "pull_up_node node_idx tree =
     (let cur_node = tree ! node_idx
      in if left cur_node = - 1 then tree
         else (let lc = tree ! nat (left cur_node); rc = tree ! nat (right cur_node)
               in tree[node_idx := cur_node\<lparr>lb := min4 (lb lc) (lb rc),
                                             ub := max4 (ub lc) (ub rc)\<rparr>]))"

partial_function (option) backward_loop ::
  "nat \<Rightarrow> nat \<Rightarrow> bvh_node list \<Rightarrow> bvh_node list option" where
  "backward_loop n_begin n_end tree =
     (let tree = fold pull_up_node [n_begin ..< n_end] tree
      in if n_begin = 0 then Some tree
         else backward_loop (n_begin - nn_level (tree ! (n_begin - 1))) n_begin tree)"

declare backward_loop.simps [code]

definition backward_pass :: "bvh_node list \<Rightarrow> bvh_node list option" where
  "backward_pass tree =
     (let n_begin = length tree - nn_level (last tree)
      in if n_begin = 0 then Some tree
         else backward_loop (n_begin - nn_level (tree ! (n_begin - 1))) n_begin tree)"

text \<open>The state of the construction loop of one chunk.\<close>

record build_state =
  tree :: "bvh_node list"
  nc_buf :: "nat list"
  ps_buf :: "nat list"
  nplc_buf :: "nat list"
  cur_n_nodes :: nat
  n_levels :: nat

text \<open>
  One iteration of \<open>while (cur_n_nodes != 0u)\<close>. The nodes added by
  \<open>tree.resize\<close> hold indeterminate values, written \<open>indet\<close>: a parameter of the model.
\<close>

definition level_step ::
  "bool \<Rightarrow> bvh_node \<Rightarrow> 64 word list \<Rightarrow> float4 list \<Rightarrow> float4 list \<Rightarrow> build_state \<Rightarrow> error + build_state" where
  "level_step ndebug indet srt_mcodes srt_lbs srt_ubs st =
     (let cur_tree_size = length (tree st);
          n_begin = cur_tree_size - cur_n_nodes st;
          n_end = cur_tree_size
      in if UINT32_MAX div 2 < cur_n_nodes st then Inl Overflow_Error
         else
           (let nn_next_level = u32 (cur_n_nodes st * 2);
                nc0 = resize (cur_n_nodes st) 0 (nc_buf st);
                ps0 = resize (cur_n_nodes st) 0 (ps_buf st);
                nplc0 = resize (cur_n_nodes st) 0 (nplc_buf st)
            in case fold (step1_node srt_mcodes srt_lbs srt_ubs n_begin) [n_begin ..< n_end]
                      (tree st, nc0, nplc0, 0) of
                 (tree1, nc1, nplc1, n_leaf_nodes) \<Rightarrow>
                   (let nn_next_level = u32_sub nn_next_level (u32 (n_leaf_nodes * 2))
                    in if SIZE_MAX - cur_tree_size < nn_next_level then Inl Overflow_Error
                       else
                         (let tree2 = resize (cur_tree_size + nn_next_level) indet tree1;
                              ps1 = prefix_sum nc1 ps0
                          in case step4_loop ndebug n_begin (cur_n_nodes st) cur_tree_size nc1 nplc1 ps1
                                    [n_begin ..< n_end] tree2 of
                               Inl e \<Rightarrow> Inl e
                             | Inr tree4 \<Rightarrow>
                                 Inr \<lparr>tree = tree4, nc_buf = nc1, ps_buf = ps1, nplc_buf = nplc1,
                                      cur_n_nodes = nn_next_level,
                                      n_levels = u32 (n_levels st + 1)\<rparr>))))"

text \<open>The loop \<open>while (cur_n_nodes != 0u)\<close>; \<open>None\<close> stands for a loop that never ends.\<close>

partial_function (option) build_loop ::
  "bool \<Rightarrow> bvh_node \<Rightarrow> 64 word list \<Rightarrow> float4 list \<Rightarrow> float4 list \<Rightarrow> build_state \<Rightarrow>
   (error + build_state) option" where
  "build_loop ndebug indet srt_mcodes srt_lbs srt_ubs st =
     (if cur_n_nodes st \<noteq> 0
      then (case level_step ndebug indet srt_mcodes srt_lbs srt_ubs st of
              Inl e \<Rightarrow> Some (Inl e)
            | Inr st' \<Rightarrow> build_loop ndebug indet srt_mcodes srt_lbs srt_ubs st')
      else Some (Inr st))"

declare build_loop.simps [code]

text \<open>
  The body of the loop over the chunks, for one chunk: \<open>srt_mcodes\<close>, \<open>srt_lbs\<close> and
  \<open>srt_ubs\<close> are the rows of the chunk, of \<open>nparts\<close> entries each. The root is created
  with \<open>boost::numeric_cast<std::uint32_t>(nparts)\<close>.
\<close>

definition root_node :: "nat \<Rightarrow> bvh_node" where
  "root_node nparts =
     \<lparr>nbegin = 0, nend = nparts, parent = - 1, left = - 1, right = - 1,
      lb = default_lb, ub = default_ub, nn_level = 0, split_idx = 0\<rparr>"

definition construct_bvh_tree ::
  "bool \<Rightarrow> bvh_node \<Rightarrow> nat \<Rightarrow> 64 word list \<Rightarrow> float4 list \<Rightarrow> float4 list \<Rightarrow>
   (error + bvh_node list) option" where
  "construct_bvh_tree ndebug indet nparts srt_mcodes srt_lbs srt_ubs =
     (if UINT32_MAX < nparts then Some (Inl Bad_Numeric_Cast)
      else
        (case build_loop ndebug indet srt_mcodes srt_lbs srt_ubs
                \<lparr>tree = [root_node nparts], nc_buf = [], ps_buf = [], nplc_buf = [],
                 cur_n_nodes = 1, n_levels = 0\<rparr> of
           None \<Rightarrow> None
         | Some (Inl e) \<Rightarrow> Some (Inl e)
         | Some (Inr st) \<Rightarrow>
             (case backward_pass (tree st) of
                None \<Rightarrow> None
              | Some t \<Rightarrow> Some (Inr t))))"

section \<open>Integration, per-particle boxes and the global box (sim\_propagate.cpp)\<close>

text \<open>
  The model of \<open>sim::propagate_for\<close> keeps what the claims about it need: which entries
  of the arrays are written, in which order, and from which entries the reductions read.
  Three parts of the source are parameters:
  \<^item> \<open>outcome idx\<close>: whether the batch integrator reports \<open>time_limit\<close> on every lane
    of batch \<open>idx\<close> (the integrator is an external library);
  \<^item> \<open>aabb_kernel chunk_idx pidx\<close>: the pair \<open>(lb, ub)\<close> that the loop over the substeps
    leaves in the arrays for the chunk and the particle, a floating-point computation
    over the recorded Taylor coefficients (\<open>particle_aabb\<close>, in the section on the boxes
    of a particle, is this computation as the source performs it);
  \<^item> \<open>ranges\<close>: the subranges of \<open>[0, n_batches)\<close> that \<open>parallel_for\<close> hands to
    \<open>batch_int_aabb\<close>; the invocations are run one after the other.
  The arrays \<open>x_lb, y_lb, z_lb, r_lb\<close> are kept as one array \<open>lbs\<close> of 4-tuples, and
  \<open>x_ub, \<dots>\<close> as \<open>ubs\<close>, as sim\_bvh.cpp views them; the same for the sorted copies.
\<close>

record sim_data =
  lbs :: "float4 list"
  ubs :: "float4 list"
  global_lb_atomic :: "float4 list"
  global_ub_atomic :: "float4 list"
  global_lb :: "float4 list"
  global_ub :: "float4 list"
  mcodes :: "64 word list"
  vidx :: "nat list"
  srt_lbs :: "float4 list"
  srt_ubs :: "float4 list"
  srt_mcodes :: "64 word list"
  int_error :: bool

text \<open>The constant \<open>nchunks = 8u\<close> of \<open>propagate_for\<close>.\<close>

definition nchunks :: nat where
  "nchunks = 8"

text \<open>The value of a value-initialised \<open>float\<close>, in four coordinates.\<close>

definition zero4 :: float4 where
  "zero4 = (Fin 0, Fin 0, Fin 0, Fin 0)"

text \<open>A loop \<open>for (i = 0; i < n; ++i) out[off + i] = f(i)\<close>.\<close>

definition store_range :: "nat \<Rightarrow> nat \<Rightarrow> (nat \<Rightarrow> 'a) \<Rightarrow> 'a list \<Rightarrow> 'a list" where
  "store_range off n f out = fold (\<lambda>i out. out[off + i := f i]) [0 ..< n] out"

text \<open>
  The boxes of one batch: for every chunk and every lane \<open>i\<close> of the batch, the entry
  \<open>offset + pidx_begin + i\<close> of the lb and ub arrays is written.
\<close>

definition batch_boxes ::
  "(nat \<Rightarrow> nat \<Rightarrow> float4 \<times> float4) \<Rightarrow> nat \<Rightarrow> nat \<Rightarrow> nat \<Rightarrow> sim_data \<Rightarrow> sim_data" where
  "batch_boxes aabb_kernel nparts batch_size idx s =
     fold (\<lambda>chunk_idx s.
             (let offset = nparts * chunk_idx; pidx_begin = idx * batch_size
              in s\<lparr>lbs := store_range (offset + pidx_begin) batch_size
                              (\<lambda>i. fst (aabb_kernel chunk_idx (pidx_begin + i))) (lbs s),
                    ubs := store_range (offset + pidx_begin) batch_size
                              (\<lambda>i. snd (aabb_kernel chunk_idx (pidx_begin + i))) (ubs s)\<rparr>))
       [0 ..< nchunks] s"

text \<open>
  The first loop of \<open>batch_int_aabb\<close> over the batches of its range: a batch whose
  integration fails sets \<open>int_error\<close> and leaves the loop (\<open>break\<close>).
\<close>

fun integrate_batches ::
  "(nat \<Rightarrow> bool) \<Rightarrow> (nat \<Rightarrow> nat \<Rightarrow> float4 \<times> float4) \<Rightarrow> nat \<Rightarrow> nat \<Rightarrow> nat list \<Rightarrow>
   sim_data \<Rightarrow> sim_data" where
  "integrate_batches outcome aabb_kernel nparts batch_size [] s = s"
| "integrate_batches outcome aabb_kernel nparts batch_size (idx # rest) s =
     (if \<not> outcome idx then s\<lparr>int_error := True\<rparr>
      else integrate_batches outcome aabb_kernel nparts batch_size rest
             (batch_boxes aabb_kernel nparts batch_size idx s))"

text \<open>
  The second loop of \<open>batch_int_aabb\<close>, for one chunk: the local reduction over the
  particles of the range, then \<open>lb_updater\<close> and \<open>ub_updater\<close>. A compare-and-swap loop
  ends with the atomic holding \<open>std::min(val, orig_val)\<close> (\<open>std::max\<close> for the upper
  bound) for the value \<open>orig_val\<close> it held at the successful exchange. In the source
  both \<open>local_lb\<close> and \<open>local_ub\<close> are updated from \<open>x_lb_ptr, y_lb_ptr, z_lb_ptr,
  r_lb_ptr\<close>, that is, from \<open>lbs\<close>.
\<close>

definition local_reduce ::
  "(float4 \<Rightarrow> float4 \<Rightarrow> float4) \<Rightarrow> float4 list \<Rightarrow> nat \<Rightarrow> nat \<Rightarrow> nat \<times> nat \<Rightarrow> float4 \<Rightarrow> float4" where
  "local_reduce f arr offset batch_size rng init =
     fold (\<lambda>idx acc.
             fold (\<lambda>i acc. f acc (arr ! (offset + idx * batch_size + i))) [0 ..< batch_size] acc)
       [fst rng ..< snd rng] init"

definition update_global :: "nat \<Rightarrow> nat \<Rightarrow> nat \<times> nat \<Rightarrow> nat \<Rightarrow> sim_data \<Rightarrow> sim_data" where
  "update_global nparts batch_size rng chunk_idx s =
     (let offset = nparts * chunk_idx;
          local_lb = local_reduce min4 (lbs s) offset batch_size rng default_lb;
          local_ub = local_reduce max4 (lbs s) offset batch_size rng default_ub
      in s\<lparr>global_lb_atomic :=
              (global_lb_atomic s)[chunk_idx := min4 local_lb (global_lb_atomic s ! chunk_idx)],
            global_ub_atomic :=
              (global_ub_atomic s)[chunk_idx := max4 local_ub (global_ub_atomic s ! chunk_idx)]\<rparr>)"

definition batch_int_aabb ::
  "(nat \<Rightarrow> bool) \<Rightarrow> (nat \<Rightarrow> nat \<Rightarrow> float4 \<times> float4) \<Rightarrow> nat \<Rightarrow> nat \<Rightarrow> nat \<times> nat \<Rightarrow>
   sim_data \<Rightarrow> sim_data" where
  "batch_int_aabb outcome aabb_kernel nparts batch_size rng s =
     fold (update_global nparts batch_size rng) [0 ..< nchunks]
       (integrate_batches outcome aabb_kernel nparts batch_size [fst rng ..< snd rng] s)"

text \<open>The initialisation of the vector of indices: \<open>vidx_ptr[i] = i\<close> in every chunk.\<close>

definition init_vidx :: "nat \<Rightarrow> nat list \<Rightarrow> nat list" where
  "init_vidx nparts v =
     fold (\<lambda>chunk_idx v. store_range (nparts * chunk_idx) nparts (\<lambda>i. i) v) [0 ..< nchunks] v"

text \<open>
  The first part of \<open>propagate_for\<close>, up to the end of \<open>parallel_invoke\<close>. The arrays
  are resized (new elements are value-initialised), the atomic global boxes are
  constructed anew with the default values \<open>glb0\<close> and \<open>gub0\<close> of their type (declared in
  sim\_data.hpp; parameters of the model), the indices are initialised and the batches
  are integrated. \<open>n_batches\<close> is \<open>nparts / batch_size\<close>; the remainder \<open>s_rem\<close> is
  computed by the source and not used.
\<close>

definition integrate_aabb ::
  "(nat \<Rightarrow> bool) \<Rightarrow> (nat \<Rightarrow> nat \<Rightarrow> float4 \<times> float4) \<Rightarrow> float4 \<Rightarrow> float4 \<Rightarrow> nat \<Rightarrow> nat \<Rightarrow>
   (nat \<times> nat) list \<Rightarrow> sim_data \<Rightarrow> sim_data" where
  "integrate_aabb outcome aabb_kernel glb0 gub0 nparts batch_size ranges s =
     (let s = s\<lparr>lbs := resize (nparts * nchunks) zero4 (lbs s),
                ubs := resize (nparts * nchunks) zero4 (ubs s),
                mcodes := resize (nparts * nchunks) 0 (mcodes s),
                vidx := resize (nparts * nchunks) 0 (vidx s),
                srt_lbs := resize (nparts * nchunks) zero4 (srt_lbs s),
                srt_ubs := resize (nparts * nchunks) zero4 (srt_ubs s),
                srt_mcodes := resize (nparts * nchunks) 0 (srt_mcodes s),
                global_lb_atomic := replicate nchunks glb0,
                global_ub_atomic := replicate nchunks gub0,
                global_lb := resize nchunks zero4 (global_lb s),
                global_ub := resize nchunks zero4 (global_ub s),
                int_error := False\<rparr>;
          s = s\<lparr>vidx := init_vidx nparts (vidx s)\<rparr>
      in fold (batch_int_aabb outcome aabb_kernel nparts batch_size) ranges s)"

text \<open>
  \<open>sim::morton_encode_sort\<close>, the body of the loop over the chunks. Two parts are
  parameters:
  \<^item> \<open>encode lb ub glb gub\<close>: the Morton code of the centre of a box within the global
    box, computed by \<open>disc_single_coord\<close> (floating point) and the encoder of the
    mortonND library;
  \<^item> \<open>psort cmp xs\<close>: \<open>oneapi::tbb::parallel_sort\<close> with the comparator \<open>cmp\<close>.
\<close>

definition sort_range ::
  "((nat \<Rightarrow> nat \<Rightarrow> bool) \<Rightarrow> nat list \<Rightarrow> nat list) \<Rightarrow> (nat \<Rightarrow> nat \<Rightarrow> bool) \<Rightarrow> nat \<Rightarrow> nat \<Rightarrow>
   nat list \<Rightarrow> nat list" where
  "sort_range psort cmp off n v =
     take off v @ psort cmp (take n (drop off v)) @ drop (off + n) v"

text \<open>The helper \<open>isort_apply\<close>: \<open>out[i] = src[vidx_ptr[i]]\<close>, all three pointers
  being offset to the chunk.\<close>

definition isort_apply :: "nat list \<Rightarrow> nat \<Rightarrow> nat \<Rightarrow> 'a list \<Rightarrow> 'a list \<Rightarrow> 'a list" where
  "isort_apply v offset nparts out src =
     store_range offset nparts (\<lambda>i. src ! (offset + v ! (offset + i))) out"

definition encode_sort_chunk ::
  "(float4 \<Rightarrow> float4 \<Rightarrow> float4 \<Rightarrow> float4 \<Rightarrow> 64 word) \<Rightarrow>
   ((nat \<Rightarrow> nat \<Rightarrow> bool) \<Rightarrow> nat list \<Rightarrow> nat list) \<Rightarrow> nat \<Rightarrow> nat \<Rightarrow> sim_data \<Rightarrow> sim_data" where
  "encode_sort_chunk encode psort nparts chunk_idx s =
     (let glb = global_lb_atomic s ! chunk_idx;
          gub = global_ub_atomic s ! chunk_idx;
          s = s\<lparr>global_lb := (global_lb s)[chunk_idx := glb],
                global_ub := (global_ub s)[chunk_idx := gub]\<rparr>;
          offset = nparts * chunk_idx;
          s = s\<lparr>mcodes := store_range offset nparts
                             (\<lambda>pidx. encode (lbs s ! (offset + pidx)) (ubs s ! (offset + pidx)) glb gub)
                             (mcodes s)\<rparr>;
          s = s\<lparr>vidx := sort_range psort
                           (\<lambda>idx1 idx2. mcodes s ! (offset + idx1) < mcodes s ! (offset + idx2))
                           offset nparts (vidx s)\<rparr>
      in s\<lparr>srt_lbs := isort_apply (vidx s) offset nparts (srt_lbs s) (lbs s),
            srt_ubs := isort_apply (vidx s) offset nparts (srt_ubs s) (ubs s),
            srt_mcodes := isort_apply (vidx s) offset nparts (srt_mcodes s) (mcodes s)\<rparr>)"

definition morton_encode_sort ::
  "(float4 \<Rightarrow> float4 \<Rightarrow> float4 \<Rightarrow> float4 \<Rightarrow> 64 word) \<Rightarrow>
   ((nat \<Rightarrow> nat \<Rightarrow> bool) \<Rightarrow> nat list \<Rightarrow> nat list) \<Rightarrow> nat \<Rightarrow> sim_data \<Rightarrow> sim_data" where
  "morton_encode_sort encode psort nparts s =
     fold (encode_sort_chunk encode psort nparts) [0 ..< length (global_lb s)] s"

text \<open>
  \<open>sim::propagate_for\<close>: after the integration, \<open>throw;\<close> without an active exception
  (which ends the program) when \<open>int_error\<close> is set; the Morton encoding and sorting
  otherwise.
\<close>

datatype failure = Terminate

definition propagate_for ::
  "(nat \<Rightarrow> bool) \<Rightarrow> (nat \<Rightarrow> nat \<Rightarrow> float4 \<times> float4) \<Rightarrow> float4 \<Rightarrow> float4 \<Rightarrow>
   (float4 \<Rightarrow> float4 \<Rightarrow> float4 \<Rightarrow> float4 \<Rightarrow> 64 word) \<Rightarrow>
   ((nat \<Rightarrow> nat \<Rightarrow> bool) \<Rightarrow> nat list \<Rightarrow> nat list) \<Rightarrow>
   nat \<Rightarrow> nat \<Rightarrow> (nat \<times> nat) list \<Rightarrow> sim_data \<Rightarrow> failure + sim_data" where
  "propagate_for outcome aabb_kernel glb0 gub0 encode psort nparts batch_size ranges s =
     (let s = integrate_aabb outcome aabb_kernel glb0 gub0 nparts batch_size ranges s
      in if int_error s then Inl Terminate
         else Inr (morton_encode_sort encode psort nparts s))"

text \<open>
  The row of chunk \<open>k\<close> of an array of \<open>nparts\<close> entries per chunk, as the \<open>mdspan\<close>
  views of sim\_bvh.cpp address it.
\<close>

definition row :: "nat \<Rightarrow> nat \<Rightarrow> 'a list \<Rightarrow> 'a list" where
  "row nparts k xs = take nparts (drop (nparts * k) xs)"

text \<open>
  What is expected of \<open>parallel_sort\<close> with a comparator \<open>key a < key b\<close> on Morton
  codes: the result is a rearrangement of the input in which no element is followed by
  one with a smaller key. \<open>insertion_sort\<close> is one function that meets it.
\<close>

definition sorts_by_key :: "((nat \<Rightarrow> nat \<Rightarrow> bool) \<Rightarrow> nat list \<Rightarrow> nat list) \<Rightarrow> bool" where
  "sorts_by_key psort =
     (\<forall>(key :: nat \<Rightarrow> 64 word) xs.
        mset (psort (\<lambda>a b. key a < key b) xs) = mset xs \<and>
        sorted (map key (psort (\<lambda>a b. key a < key b) xs)))"

fun insert_by :: "('a \<Rightarrow> 'a \<Rightarrow> bool) \<Rightarrow> 'a \<Rightarrow> 'a list \<Rightarrow> 'a list" where
  "insert_by cmp x [] = [x]"
| "insert_by cmp x (y # ys) = (if cmp y x then y # insert_by cmp x ys else x # y # ys)"

definition insertion_sort :: "('a \<Rightarrow> 'a \<Rightarrow> bool) \<Rightarrow> 'a list \<Rightarrow> 'a list" where
  "insertion_sort cmp xs = foldr (insert_by cmp) xs []"

text \<open>The data of a simulation before its first superstep: every array is empty.\<close>

definition empty_sim_data :: sim_data where
  "empty_sim_data =
     \<lparr>lbs = [], ubs = [], global_lb_atomic = [], global_ub_atomic = [], global_lb = [],
      global_ub = [], mcodes = [], vidx = [], srt_lbs = [], srt_ubs = [], srt_mcodes = [],
      int_error = False\<rparr>"

text \<open>
  Auxiliary predicates of the proofs about the sort. \<open>sort_frame s t\<close>: the state \<open>t\<close>
  agrees with \<open>s\<close> on everything the integration phase does not write.
  \<open>sort_lengths\<close>: the arrays have \<open>nparts\<close> entries for each of \<open>K\<close> chunks.
  \<open>chunk_sorted\<close>: the rows of chunk \<open>k\<close> are sorted by code and consistent with the
  index vector.
\<close>

definition sort_frame :: "sim_data \<Rightarrow> sim_data \<Rightarrow> bool" where
  "sort_frame s t =
     (mcodes t = mcodes s \<and> vidx t = vidx s \<and> srt_lbs t = srt_lbs s \<and> srt_ubs t = srt_ubs s \<and>
      srt_mcodes t = srt_mcodes s \<and> global_lb t = global_lb s \<and> global_ub t = global_ub s \<and>
      length (lbs t) = length (lbs s) \<and> length (ubs t) = length (ubs s) \<and>
      length (global_lb_atomic t) = length (global_lb_atomic s) \<and>
      length (global_ub_atomic t) = length (global_ub_atomic s))"

definition sort_lengths :: "nat \<Rightarrow> nat \<Rightarrow> sim_data \<Rightarrow> bool" where
  "sort_lengths nparts K s =
     (length (lbs s) = nparts * K \<and> length (ubs s) = nparts * K \<and>
      length (mcodes s) = nparts * K \<and> length (vidx s) = nparts * K \<and>
      length (srt_lbs s) = nparts * K \<and> length (srt_ubs s) = nparts * K \<and>
      length (srt_mcodes s) = nparts * K \<and> length (global_lb s) = K)"

definition chunk_sorted :: "nat \<Rightarrow> nat \<Rightarrow> sim_data \<Rightarrow> bool" where
  "chunk_sorted nparts k s =
     (sorted (row nparts k (srt_mcodes s)) \<and>
      mset (row nparts k (vidx s)) = mset [0 ..< nparts] \<and>
      row nparts k (srt_mcodes s) = map (\<lambda>j. row nparts k (mcodes s) ! j) (row nparts k (vidx s)) \<and>
      row nparts k (srt_lbs s) = map (\<lambda>j. row nparts k (lbs s) ! j) (row nparts k (vidx s)) \<and>
      row nparts k (srt_ubs s) = map (\<lambda>j. row nparts k (ubs s) ! j) (row nparts k (vidx s)))"

text \<open>
  A small run of \<open>propagate_for\<close>: two particles in two batches of width 1, with insertion
  sort for the sort. Particle 0 has the box \<open>[3, 4]\<close> and the code 9, particle 1 the box
  \<open>[1, 2]\<close> and the code 5, in every chunk.
\<close>

definition demo_kernel :: "nat \<Rightarrow> nat \<Rightarrow> float4 \<times> float4" where
  "demo_kernel chunk_idx pidx =
     (if pidx = 0 then ((Fin 3, Fin 3, Fin 3, Fin 3), (Fin 4, Fin 4, Fin 4, Fin 4))
      else ((Fin 1, Fin 1, Fin 1, Fin 1), (Fin 2, Fin 2, Fin 2, Fin 2)))"

definition demo_encode :: "float4 \<Rightarrow> float4 \<Rightarrow> float4 \<Rightarrow> float4 \<Rightarrow> 64 word" where
  "demo_encode l u glb gub = (if l = (Fin 3, Fin 3, Fin 3, Fin 3) then 9 else 5)"

definition demo_sorted :: sim_data where
  "demo_sorted =
     morton_encode_sort demo_encode insertion_sort 2
       (integrate_aabb (\<lambda>idx. True) demo_kernel default_lb default_ub 2 1 [(0, 2)] empty_sim_data)"

section \<open>The verifier's helper (sim\_bvh.cpp)\<close>

text \<open>
  \<open>__builtin_clzll\<close>, the number of leading zero bits of a nonzero 64-bit value: the
  positions are scanned from the most significant bit down to the first bit set.
\<close>

definition clzll :: "64 word \<Rightarrow> nat" where
  "clzll w = length (takeWhile (\<lambda>i. \<not> bit w (63 - i)) [0 ..< 64])"

text \<open>\<open>detail::first_diff_bit\<close> for \<open>std::uint64_t\<close>: the index, counted from the most
  significant bit, of the first bit in which \<open>n1\<close> and \<open>n2\<close> differ; 64 if they are equal.\<close>

definition first_diff_bit :: "64 word \<Rightarrow> 64 word \<Rightarrow> nat" where
  "first_diff_bit n1 n2 =
     (let res_xor = n1 XOR n2 in if res_xor = 0 then 64 else clzll res_xor)"

section \<open>What one level of the construction computes\<close>

text \<open>
  The result of an iteration of the construction loop, written without indices, for the
  proofs. \<open>kids\<close>: the children created for a classified node (none for a leaf).
  \<open>next_level\<close>: the children of the nodes of a level, in order; \<open>node_idx\<close> is the
  index of the first node of the level. \<open>finalised\<close>: the nodes of the level after
  step 4; \<open>lc_idx\<close> is the index of the next free slot of the tree.
\<close>

definition kids :: "nat \<Rightarrow> bvh_node \<times> nat \<times> nat \<Rightarrow> bvh_node list" where
  "kids node_idx c =
     (case c of (nd, nc, nplc) \<Rightarrow>
        if nc = 0 then [] else [left_child node_idx nd nplc, right_child node_idx nd nplc])"

fun next_level :: "nat \<Rightarrow> (bvh_node \<times> nat \<times> nat) list \<Rightarrow> bvh_node list" where
  "next_level node_idx [] = []"
| "next_level node_idx (c # cs) = kids node_idx c @ next_level (Suc node_idx) cs"

definition finalise :: "nat \<Rightarrow> nat \<Rightarrow> bvh_node \<times> nat \<times> nat \<Rightarrow> bvh_node" where
  "finalise n lc_idx c =
     (case c of (nd, nc, nplc) \<Rightarrow>
        if nc = 0 then nd\<lparr>nn_level := n\<rparr>
        else nd\<lparr>nn_level := n, left := int lc_idx, right := int (lc_idx + 1)\<rparr>)"

fun finalised :: "nat \<Rightarrow> nat \<Rightarrow> (bvh_node \<times> nat \<times> nat) list \<Rightarrow> bvh_node list" where
  "finalised n lc_idx [] = []"
| "finalised n lc_idx (c # cs) =
     finalise n lc_idx c # finalised n (lc_idx + length (kids 0 c)) cs"

text \<open>
  The tree in the course of step 4, when the first \<open>k\<close> nodes of the level have been
  processed: the nodes \<open>dn\<close> of the earlier levels, the finalised nodes, the nodes of
  the level still to be processed, the children created so far and the slots not yet
  written.
\<close>

definition step4_shape ::
  "bvh_node \<Rightarrow> bvh_node list \<Rightarrow> (bvh_node \<times> nat \<times> nat) list \<Rightarrow> nat \<Rightarrow> bvh_node list" where
  "step4_shape indet dn cls k =
     dn @ finalised (length cls) (length dn + length cls) (take k cls) @
     drop k (map fst cls) @
     next_level (length dn) (take k cls) @
     replicate (length (next_level (length dn) cls) - length (next_level (length dn) (take k cls)))
       indet"

section \<open>Invariants of the construction loop\<close>

text \<open>
  \<open>children_ok t i\<close>: node \<open>i\<close> has two children inside the tree whose ranges split
  the range of the node into two non-empty parts.
\<close>

definition children_ok :: "bvh_node list \<Rightarrow> nat \<Rightarrow> bool" where
  "children_ok t i =
     (0 < left (t ! i) \<and> right (t ! i) = left (t ! i) + 1 \<and>
      nat (right (t ! i)) < length t \<and>
      nbegin (t ! nat (left (t ! i))) = nbegin (t ! i) \<and>
      nend (t ! nat (right (t ! i))) = nend (t ! i) \<and>
      nend (t ! nat (left (t ! i))) = nbegin (t ! nat (right (t ! i))) \<and>
      nbegin (t ! i) < nend (t ! nat (left (t ! i))) \<and>
      nend (t ! nat (left (t ! i))) < nend (t ! i))"

text \<open>
  \<open>inv_range\<close>: the nodes of the current level are the last \<open>cur_n_nodes\<close> nodes of the
  tree and have no children yet; every node has a non-empty range within the particles;
  every node with children on an earlier level satisfies \<open>children_ok\<close>.
\<close>

definition inv_range :: "nat \<Rightarrow> build_state \<Rightarrow> bool" where
  "inv_range nparts st =
     (cur_n_nodes st \<le> length (tree st) \<and>
      (\<forall>i<length (tree st).
         nbegin (tree st ! i) < nend (tree st ! i) \<and> nend (tree st ! i) \<le> nparts) \<and>
      (\<forall>i<length (tree st) - cur_n_nodes st.
         left (tree st ! i) \<noteq> - 1 \<longrightarrow> children_ok (tree st) i) \<and>
      (\<forall>i<length (tree st).
         length (tree st) - cur_n_nodes st \<le> i \<longrightarrow> left (tree st ! i) = - 1))"

text \<open>
  \<open>same_prefix mc b e s\<close>: the Morton codes at the positions \<open>[b, e)\<close> agree on their
  \<open>s\<close> most significant bits.
\<close>

definition same_prefix :: "64 word list \<Rightarrow> nat \<Rightarrow> nat \<Rightarrow> nat \<Rightarrow> bool" where
  "same_prefix mc b e s =
     (\<forall>i j. b \<le> i \<and> i < e \<and> b \<le> j \<and> j < e \<longrightarrow>
        drop_bit (64 - s) (mc ! i) = drop_bit (64 - s) (mc ! j))"

text \<open>
  \<open>split_ok mc t i\<close>: the split index of node \<open>i\<close> is the index of the first bit in
  which the codes on the two sides of the boundary between its children differ.
  \<open>inv_split\<close>: it holds for the nodes with children on the earlier levels, and the
  codes of every node of the current level agree on the bits before its split index.
\<close>

definition split_ok :: "64 word list \<Rightarrow> bvh_node list \<Rightarrow> nat \<Rightarrow> bool" where
  "split_ok mc t i =
     (split_idx (t ! i)
        = first_diff_bit (mc ! (nend (t ! nat (left (t ! i))) - 1))
                         (mc ! nend (t ! nat (left (t ! i)))))"

definition inv_split :: "64 word list \<Rightarrow> build_state \<Rightarrow> bool" where
  "inv_split mc st =
     ((\<forall>i<length (tree st) - cur_n_nodes st.
         left (tree st ! i) \<noteq> - 1 \<longrightarrow> split_ok mc (tree st) i) \<and>
      (\<forall>i<length (tree st).
         length (tree st) - cur_n_nodes st \<le> i \<longrightarrow>
           same_prefix mc (nbegin (tree st ! i)) (nend (tree st ! i)) (split_idx (tree st ! i))))"

text \<open>
  \<open>inv_levels\<close>: the nodes of the current level have a split index not below the number
  of levels completed, which is at most 64 while nodes remain and at most 65 at the end.
\<close>

definition inv_levels :: "build_state \<Rightarrow> bool" where
  "inv_levels st =
     (cur_n_nodes st \<le> length (tree st) \<and>
      n_levels st \<le> 65 \<and> (cur_n_nodes st \<noteq> 0 \<longrightarrow> n_levels st \<le> 64) \<and>
      (\<forall>i<length (tree st).
         length (tree st) - cur_n_nodes st \<le> i \<longrightarrow> n_levels st \<le> split_idx (tree st ! i)))"

text \<open>\<open>same_shape t t'\<close>: the trees differ in the boxes of their nodes at most.\<close>

definition same_shape :: "bvh_node list \<Rightarrow> bvh_node list \<Rightarrow> bool" where
  "same_shape t t' =
     (length t' = length t \<and>
      (\<forall>i<length t.
         nbegin (t' ! i) = nbegin (t ! i) \<and> nend (t' ! i) = nend (t ! i) \<and>
         parent (t' ! i) = parent (t ! i) \<and> left (t' ! i) = left (t ! i) \<and>
         right (t' ! i) = right (t ! i) \<and> nn_level (t' ! i) = nn_level (t ! i) \<and>
         split_idx (t' ! i) = split_idx (t ! i)))"

text \<open>
  A small tree: two particles with the Morton codes \<open>0\<close> and \<open>0xFFFFFFFFFFFFFFFF\<close> and
  the boxes \<open>[0, 2]\<close> and \<open>[1, 3]\<close>. \<open>demo_tree\<close> is the tree that the construction
  returns on them; \<open>demo_indet\<close> is the value given to the slots added by \<open>resize\<close>.
\<close>

definition demo_indet :: bvh_node where
  "demo_indet = \<lparr>nbegin = 0, nend = 0, parent = 0, left = 0, right = 0,
                 lb = default_lb, ub = default_ub, nn_level = 0, split_idx = 0\<rparr>"

definition demo_lbs :: "float4 list" where
  "demo_lbs = [(Fin 0, Fin 0, Fin 0, Fin 0), (Fin 1, Fin 1, Fin 1, Fin 1)]"

definition demo_ubs :: "float4 list" where
  "demo_ubs = [(Fin 2, Fin 2, Fin 2, Fin 2), (Fin 3, Fin 3, Fin 3, Fin 3)]"

definition demo_tree :: "bvh_node list" where
  "demo_tree =
     [\<lparr>nbegin = 0, nend = 2, parent = - 1, left = 1, right = 2,
       lb = (Fin 0, Fin 0, Fin 0, Fin 0), ub = (Fin 3, Fin 3, Fin 3, Fin 3),
       nn_level = 1, split_idx = 0\<rparr>,
      \<lparr>nbegin = 0, nend = 1, parent = 0, left = - 1, right = - 1,
       lb = (Fin 0, Fin 0, Fin 0, Fin 0), ub = (Fin 2, Fin 2, Fin 2, Fin 2),
       nn_level = 2, split_idx = 1\<rparr>,
      \<lparr>nbegin = 1, nend = 2, parent = 0, left = - 1, right = - 1,
       lb = (Fin 1, Fin 1, Fin 1, Fin 1), ub = (Fin 3, Fin 3, Fin 3, Fin 3),
       nn_level = 2, split_idx = 1\<rparr>]"

section \<open>Binary floating point (IEEE 754)\<close>

text \<open>
  A finite binary floating-point number is kept as a dyadic number: \<open>(m, e)\<close> stands for
  \<open>m \<cdot> 2^e\<close>. \<open>bit_length m\<close> is the number of binary digits of a positive \<open>m\<close>.
  \<open>round_even m k\<close> is \<open>m / 2^k\<close> rounded to the nearest integer, a tie going to the even
  one. \<open>round_dyadic p qmin m e\<close> rounds \<open>m \<cdot> 2^e\<close> to \<open>p\<close> significant binary digits,
  with \<open>2^qmin\<close> the least unit in the last place (gradual underflow): round to
  nearest, ties to even, the rounding of the arithmetic of the source. The sign of a zero
  is not kept; no operation of the source that is modelled here depends on it.
\<close>

function bit_length :: "int \<Rightarrow> int" where
  "bit_length m = (if m \<le> 0 then 0 else bit_length (m div 2) + 1)"
  by pat_completeness auto
termination
  by (relation "measure nat") auto

declare bit_length.simps [simp del]

definition round_even :: "int \<Rightarrow> nat \<Rightarrow> int" where
  "round_even m k =
     (let q = m div 2 ^ k; r = m mod 2 ^ k
      in if 2 * r < 2 ^ k then q
         else if 2 ^ k < 2 * r then q + 1
         else if even q then q else q + 1)"

definition round_dyadic :: "int \<Rightarrow> int \<Rightarrow> int \<Rightarrow> int \<Rightarrow> int \<times> int" where
  "round_dyadic p qmin m e =
     (let q = max (e + bit_length \<bar>m\<bar> - p) qmin
      in if q \<le> e then (m, e) else (round_even m (nat (q - e)), q))"

text \<open>
  The type \<open>double\<close> (binary64): 53 significant digits, least unit \<open>2^-1074\<close>, overflow
  to an infinity from \<open>2^1024\<close> on. \<open>mk_double m e\<close> is the \<open>double\<close> that an operation
  with the exact result \<open>m \<cdot> 2^e\<close> returns.
\<close>

datatype double = Dbl int int | DPInf | DNInf | DNaN

definition mk_double :: "int \<Rightarrow> int \<Rightarrow> double" where
  "mk_double m e =
     (case round_dyadic 53 (- 1074) m e of
        (m', e') \<Rightarrow>
          if 1024 < e' + bit_length \<bar>m'\<bar> then (if 0 < m' then DPInf else DNInf)
          else Dbl m' e')"

instantiation double :: "{plus, uminus, minus, times, ord}"
begin

fun plus_double :: "double \<Rightarrow> double \<Rightarrow> double" where
  "plus_double (Dbl m1 e1) (Dbl m2 e2) =
     (let e = min e1 e2 in mk_double (m1 * 2 ^ nat (e1 - e) + m2 * 2 ^ nat (e2 - e)) e)"
| "plus_double DNaN b = DNaN"
| "plus_double a DNaN = DNaN"
| "plus_double DPInf DNInf = DNaN"
| "plus_double DNInf DPInf = DNaN"
| "plus_double DPInf b = DPInf"
| "plus_double DNInf b = DNInf"
| "plus_double a DPInf = DPInf"
| "plus_double a DNInf = DNInf"

fun uminus_double :: "double \<Rightarrow> double" where
  "uminus_double (Dbl m e) = Dbl (- m) e"
| "uminus_double DPInf = DNInf"
| "uminus_double DNInf = DPInf"
| "uminus_double DNaN = DNaN"

definition minus_double :: "double \<Rightarrow> double \<Rightarrow> double" where
  "minus_double a b = a + (- b)"

fun times_double :: "double \<Rightarrow> double \<Rightarrow> double" where
  "times_double (Dbl m1 e1) (Dbl m2 e2) = mk_double (m1 * m2) (e1 + e2)"
| "times_double DNaN b = DNaN"
| "times_double a DNaN = DNaN"
| "times_double (Dbl m e) DPInf = (if m = 0 then DNaN else if 0 < m then DPInf else DNInf)"
| "times_double (Dbl m e) DNInf = (if m = 0 then DNaN else if 0 < m then DNInf else DPInf)"
| "times_double DPInf (Dbl m e) = (if m = 0 then DNaN else if 0 < m then DPInf else DNInf)"
| "times_double DNInf (Dbl m e) = (if m = 0 then DNaN else if 0 < m then DNInf else DPInf)"
| "times_double DPInf DPInf = DPInf"
| "times_double DPInf DNInf = DNInf"
| "times_double DNInf DPInf = DNInf"
| "times_double DNInf DNInf = DPInf"

fun less_double :: "double \<Rightarrow> double \<Rightarrow> bool" where
  "less_double (Dbl m1 e1) (Dbl m2 e2) =
     (let e = min e1 e2 in m1 * 2 ^ nat (e1 - e) < m2 * 2 ^ nat (e2 - e))"
| "less_double DNaN b = False"
| "less_double a DNaN = False"
| "less_double a DNInf = False"
| "less_double DPInf b = False"
| "less_double DNInf b = True"
| "less_double (Dbl m e) DPInf = True"

fun less_eq_double :: "double \<Rightarrow> double \<Rightarrow> bool" where
  "less_eq_double (Dbl m1 e1) (Dbl m2 e2) =
     (let e = min e1 e2 in m1 * 2 ^ nat (e1 - e) \<le> m2 * 2 ^ nat (e2 - e))"
| "less_eq_double DNaN b = False"
| "less_eq_double a DNaN = False"
| "less_eq_double DNInf b = True"
| "less_eq_double a DPInf = True"
| "less_eq_double a DNInf = False"
| "less_eq_double DPInf b = False"

instance ..

end

text \<open>
  The conversion of an unsigned integer to \<open>double\<close>; the division of a \<open>double\<close> by
  \<open>2^k\<close>, whose exact result is dyadic; the real number that a finite \<open>double\<close> stands
  for (the value 0 given to the infinities and to NaN is not used).
\<close>

definition double_of_nat :: "nat \<Rightarrow> double" where
  "double_of_nat n = mk_double (int n) 0"

definition div_pow2 :: "double \<Rightarrow> nat \<Rightarrow> double" where
  "div_pow2 x k = (case x of Dbl m e \<Rightarrow> mk_double m (e - int k) | _ \<Rightarrow> x)"

definition valof :: "double \<Rightarrow> real" where
  "valof x =
     (case x of
        Dbl m e \<Rightarrow> (if 0 \<le> e then of_int m * 2 ^ nat e else of_int m / 2 ^ nat (- e))
      | _ \<Rightarrow> 0)"

text \<open>
  The type \<open>float\<close> (binary32) as the result of a conversion: 24 significant digits, least
  unit \<open>2^-149\<close>, overflow from \<open>2^128\<close> on. \<open>cast_float\<close> is
  \<open>static_cast<float>\<close> of a \<open>double\<close>.
\<close>

datatype float32 = Flt int int | FPInf | FNInf | FNaN

definition mk_float32 :: "int \<Rightarrow> int \<Rightarrow> float32" where
  "mk_float32 m e =
     (case round_dyadic 24 (- 149) m e of
        (m', e') \<Rightarrow>
          if 128 < e' + bit_length \<bar>m'\<bar> then (if 0 < m' then FPInf else FNInf)
          else Flt m' e')"

fun cast_float :: "double \<Rightarrow> float32" where
  "cast_float (Dbl m e) = mk_float32 m e"
| "cast_float DPInf = FPInf"
| "cast_float DNInf = FNInf"
| "cast_float DNaN = FNaN"

instantiation float32 :: ord
begin

fun less_float32 :: "float32 \<Rightarrow> float32 \<Rightarrow> bool" where
  "less_float32 (Flt m1 e1) (Flt m2 e2) =
     (let e = min e1 e2 in m1 * 2 ^ nat (e1 - e) < m2 * 2 ^ nat (e2 - e))"
| "less_float32 FNaN b = False"
| "less_float32 a FNaN = False"
| "less_float32 a FNInf = False"
| "less_float32 FPInf b = False"
| "less_float32 FNInf b = True"
| "less_float32 (Flt m e) FPInf = True"

fun less_eq_float32 :: "float32 \<Rightarrow> float32 \<Rightarrow> bool" where
  "less_eq_float32 (Flt m1 e1) (Flt m2 e2) =
     (let e = min e1 e2 in m1 * 2 ^ nat (e1 - e) \<le> m2 * 2 ^ nat (e2 - e))"
| "less_eq_float32 FNaN b = False"
| "less_eq_float32 a FNaN = False"
| "less_eq_float32 FNInf b = True"
| "less_eq_float32 a FPInf = True"
| "less_eq_float32 a FNInf = False"
| "less_eq_float32 FPInf b = False"

instance ..

end

text \<open>
  \<open>std::nextafter(x, y)\<close> on \<open>float\<close>: NaN if an argument is a NaN, \<open>y\<close> if the two are
  equal, and otherwise the \<open>float\<close> next to \<open>x\<close> in the direction of \<open>y\<close>. \<open>next_up x\<close>
  is the least \<open>float\<close> above \<open>x\<close>: with \<open>M \<cdot> 2^q\<close> the value of \<open>x\<close> written with its
  unit in the last place \<open>2^q\<close>, it is \<open>(M + 1) \<cdot> 2^q\<close>, except below a negative power of two
  above the subnormal range, where the spacing halves. \<open>next_down\<close> is its mirror image.
\<close>

fun next_up :: "float32 \<Rightarrow> float32" where
  "next_up (Flt m e) =
     (if m = 0 then Flt 1 (- 149)
      else
        (let q = max (e + bit_length \<bar>m\<bar> - 24) (- 149);
             M = (if q \<le> e then m * 2 ^ nat (e - q) else m div 2 ^ nat (q - e))
         in if 0 < M then mk_float32 (M + 1) q
            else if M = - (2 ^ 23) \<and> - 149 < q then Flt (2 * M + 1) (q - 1)
            else Flt (M + 1) q))"
| "next_up FNInf = Flt (- (2 ^ 24 - 1)) 104"
| "next_up FPInf = FPInf"
| "next_up FNaN = FNaN"

fun neg_float32 :: "float32 \<Rightarrow> float32" where
  "neg_float32 (Flt m e) = Flt (- m) e"
| "neg_float32 FPInf = FNInf"
| "neg_float32 FNInf = FPInf"
| "neg_float32 FNaN = FNaN"

definition next_down :: "float32 \<Rightarrow> float32" where
  "next_down x = neg_float32 (next_up (neg_float32 x))"

fun nextafter :: "float32 \<Rightarrow> float32 \<Rightarrow> float32" where
  "nextafter FNaN y = FNaN"
| "nextafter x FNaN = FNaN"
| "nextafter x y = (if x < y then next_up x else if y < x then next_down x else y)"

text \<open>
  The entries of the arrays of boxes are values of the type \<open>float\<close> of the section on
  boxes, which has no NaN. \<open>float_value\<close> is the value of a converted number among them
  (none for a NaN). \<open>min_update a b\<close> is \<open>std::min(a, b)\<close>, that is \<open>(b < a) ? b : a\<close>, for
  an entry \<open>a\<close> and a candidate \<open>b\<close>, and \<open>max_update a b\<close> is \<open>std::max(a, b)\<close>, that is
  \<open>(a < b) ? b : a\<close>: a comparison with a NaN is false, so a NaN candidate leaves the
  entry as it is, and an entry is never a NaN.
\<close>

fun float_value :: "float32 \<Rightarrow> float option" where
  "float_value (Flt m e) =
     Some (Fin (if 0 \<le> e then of_int m * 2 ^ nat e else of_int m / 2 ^ nat (- e)))"
| "float_value FPInf = Some PInf"
| "float_value FNInf = Some NInf"
| "float_value FNaN = None"

definition min_update :: "float \<Rightarrow> float32 \<Rightarrow> float" where
  "min_update a b = (case float_value b of None \<Rightarrow> a | Some v \<Rightarrow> std_min a v)"

definition max_update :: "float \<Rightarrow> float32 \<Rightarrow> float" where
  "max_update a b = (case float_value b of None \<Rightarrow> a | Some v \<Rightarrow> std_max a v)"

section \<open>The boxes of a particle (sim\_propagate.cpp, \<open>batch_int_aabb\<close>)\<close>

text \<open>
  The constants of \<open>propagate_for\<close>: \<open>delta_t = 0.46 * 8u\<close> and
  \<open>chunk_size = delta_t / nchunks\<close> with \<open>nchunks = 8u\<close>. \<open>literal_0_46\<close> is the
  \<open>double\<close> nearest to \<open>0.46\<close>, the value of the literal.
\<close>

definition literal_0_46 :: double where
  "literal_0_46 = Dbl 8286623314361713 (- 54)"

definition delta_t :: double where
  "delta_t = literal_0_46 * double_of_nat 8"

definition chunk_size :: double where
  "chunk_size = div_pow2 delta_t 3"

text \<open>
  The times of the substeps are double-length numbers of the heyoka library
  (\<open>hy::detail::dfloat<double>\<close>). The library is not part of the sources; its type is a
  type variable \<open>'t\<close> and the three operations that the computation of the boxes uses
  are parameters: the constructor from a \<open>double\<close>, \<open>operator<\<close>, and the subtraction
  followed by \<open>static_cast<double>\<close>. \<open>df_max\<close> and \<open>df_min\<close> are \<open>std::max\<close> and
  \<open>std::min\<close> on them.
\<close>

record 't dfloat_ops =
  df_of_double :: "double \<Rightarrow> 't"
  df_less :: "'t \<Rightarrow> 't \<Rightarrow> bool"
  df_diff :: "'t \<Rightarrow> 't \<Rightarrow> double"

definition df_max :: "'t dfloat_ops \<Rightarrow> 't \<Rightarrow> 't \<Rightarrow> 't" where
  "df_max ops a b = (if df_less ops a b then b else a)"

definition df_min :: "'t dfloat_ops \<Rightarrow> 't \<Rightarrow> 't \<Rightarrow> 't" where
  "df_min ops a b = (if df_less ops b a then b else a)"

text \<open>
  The members of \<open>s_data[i]\<close> that the integrator callback has filled for a particle: the
  end times of the substeps, relative to the initial time, and for every substep the
  \<open>order + 1\<close> Taylor coefficients of each of \<open>x\<close>, \<open>y\<close>, \<open>z\<close>, \<open>r\<close>.
\<close>

record 't substeps =
  tcoords :: "'t list"
  tc_x :: "double list"
  tc_y :: "double list"
  tc_z :: "double list"
  tc_r :: "double list"

text \<open>
  \<open>std::upper_bound(first, last, value)\<close> with \<open>cmp i\<close> standing for
  \<open>value < first[i]\<close>: the binary search of \<open>lower_bound\<close>, which here moves to the right
  half when the comparison is false.
\<close>

definition upper_bound :: "(nat \<Rightarrow> bool) \<Rightarrow> nat \<Rightarrow> nat \<Rightarrow> nat" where
  "upper_bound cmp first len = lower_bound (\<lambda>i. \<not> cmp i) first len"

text \<open>
  The body of the loop \<open>for (auto it = ss_it_begin; it != ss_it_end; ++it)\<close>: the
  iterator \<open>it\<close> is the index of the substep, and \<open>acc\<close> holds the eight entries
  \<open>x_lb_ptr[pidx_begin + i]\<close>, \<dots>, \<open>r_ub_ptr[pidx_begin + i]\<close>. The difference
  \<open>it - tcoords_begin\<close> is not negative, and its \<open>boost::numeric_cast\<close> to the size type
  gives the index \<open>ss_idx\<close>.
\<close>

definition substep_update ::
  "'t dfloat_ops \<Rightarrow> nat \<Rightarrow> 't substeps \<Rightarrow> 't \<Rightarrow> 't \<Rightarrow> nat \<Rightarrow> float4 \<times> float4 \<Rightarrow> float4 \<times> float4" where
  "substep_update ops order sd chunk_begin chunk_end it acc =
     (case acc of
        ((x_lb, y_lb, z_lb, r_lb), (x_ub, y_ub, z_ub, r_ub)) \<Rightarrow>
          (let ss_start = (if it = 0 then df_of_double ops (double_of_nat 0)
                           else tcoords sd ! (it - 1));
               ev_lb = df_max ops chunk_begin ss_start;
               ev_ub = df_min ops chunk_end (tcoords sd ! it);
               h_int_lb = df_diff ops ev_lb ss_start;
               h_int_ub = df_diff ops ev_ub ss_start;
               ss_idx = it;
               tc_ptr_x = drop (ss_idx * (order + 1)) (tc_x sd);
               tc_ptr_y = drop (ss_idx * (order + 1)) (tc_y sd);
               tc_ptr_z = drop (ss_idx * (order + 1)) (tc_z sd);
               tc_ptr_r = drop (ss_idx * (order + 1)) (tc_r sd);
               h_int = \<lparr>lower = h_int_lb, upper = h_int_ub\<rparr>;
               x_int = horner_eval order h_int tc_ptr_x;
               y_int = horner_eval order h_int tc_ptr_y;
               z_int = horner_eval order h_int tc_ptr_z;
               r_int = horner_eval order h_int tc_ptr_r
           in ((min_update x_lb (nextafter (cast_float (lower x_int)) FNInf),
                min_update y_lb (nextafter (cast_float (lower y_int)) FNInf),
                min_update z_lb (nextafter (cast_float (lower z_int)) FNInf),
                min_update r_lb (nextafter (cast_float (lower r_int)) FNInf)),
               (max_update x_ub (nextafter (cast_float (upper x_int)) FPInf),
                max_update y_ub (nextafter (cast_float (upper y_int)) FPInf),
                max_update z_ub (nextafter (cast_float (upper z_int)) FPInf),
                max_update r_ub (nextafter (cast_float (upper r_int)) FPInf)))))"

text \<open>
  The computation of the box of the particle \<open>pidx\<close> in the chunk \<open>chunk_idx\<close>, from the
  data \<open>s_data\<close> recorded for the particles: the entries are set to \<open>(+\<infinity>, -\<infinity>)\<close>, the
  range of the substeps that overlap the chunk is located, and the loop over the substeps
  updates the entries. The result is the pair of entries that the loop leaves in the
  \<open>lb\<close> and \<open>ub\<close> arrays: an instance of the parameter \<open>aabb_kernel\<close> of the model of the
  integration phase.
\<close>

definition particle_aabb ::
  "'t dfloat_ops \<Rightarrow> nat \<Rightarrow> (nat \<Rightarrow> 't substeps) \<Rightarrow> nat \<Rightarrow> nat \<Rightarrow> float4 \<times> float4" where
  "particle_aabb ops order s_data chunk_idx pidx =
     (let chunk_begin = df_of_double ops (chunk_size * double_of_nat chunk_idx);
          chunk_end = df_of_double ops (chunk_size * double_of_nat (chunk_idx + 1));
          sd = s_data pidx;
          n = length (tcoords sd);
          ss_it_begin = upper_bound (\<lambda>i. df_less ops chunk_begin (tcoords sd ! i)) 0 n;
          ss_it_end = lower_bound (\<lambda>i. df_less ops (tcoords sd ! i) chunk_end)
                        ss_it_begin (n - ss_it_begin);
          ss_it_end = ss_it_end + (if ss_it_end = n then 0 else 1)
      in fold (substep_update ops order sd chunk_begin chunk_end) [ss_it_begin ..< ss_it_end]
           ((PInf, PInf, PInf, PInf), (NInf, NInf, NInf, NInf)))"

text \<open>
  The claim about the boxes speaks of the value of the Taylor polynomial of a substep:
  \<open>taylor_value c h\<close> is \<open>c[0] + c[1]\<cdot>h + \<dots> + c[O]\<cdot>h^O\<close> in exact real arithmetic, for
  the coefficients \<open>c\<close> recorded for the substep and \<open>h\<close> the time since its start.
\<close>

fun taylor_value :: "double list \<Rightarrow> real \<Rightarrow> real" where
  "taylor_value [] h = 0"
| "taylor_value (c # cs) h = valof c + h * taylor_value cs h"

text \<open>
  An input for the computation of the boxes. The times have a zero low part and are given
  by their high part: they are compared as \<open>double\<close>s, and the difference of two of them
  is the rounded difference of the \<open>double\<close>s. One particle, integrated at order 1 in a
  single substep that ends at \<open>delta_t\<close>: \<open>x(h) = -3450 + 7500\<cdot>h\<close>, \<open>y\<close> and \<open>z\<close> are
  0 and \<open>r\<close> is 1.
\<close>

definition high_part_times :: "double dfloat_ops" where
  "high_part_times =
     \<lparr>df_of_double = (\<lambda>x. x), df_less = (\<lambda>a b. a < b), df_diff = (\<lambda>a b. a - b)\<rparr>"

definition demo_substeps :: "double substeps" where
  "demo_substeps =
     \<lparr>tcoords = [delta_t],
      tc_x = [Dbl (- 3450) 0, Dbl 7500 0],
      tc_y = [Dbl 0 0, Dbl 0 0],
      tc_z = [Dbl 0 0, Dbl 0 0],
      tc_r = [Dbl 1 0, Dbl 0 0]\<rparr>"

section \<open>Properties of the polynomial evaluator\<close>

lemma horner_loop_done: "order < k \<Longrightarrow> horner_loop order h ptr k acc = acc"
  by (subst horner_loop.simps) simp

lemma horner_loop_step:
  "k \<le> order \<Longrightarrow>
   horner_loop order h ptr k acc =
   horner_loop order h ptr (Suc k) (ival_add (ival_of (ptr ! (order - k))) (ival_mul acc h))"
  by (subst horner_loop.simps) simp

text \<open>
  Loop invariant: when the counter is \<open>k\<close>, the accumulator holds the ascending Horner
  form of the coefficients \<open>ptr[order - k + 1 .. order]\<close>.
\<close>

lemma horner_loop_ascending:
  assumes "length ptr = order + 1" and "1 \<le> k" and "k \<le> order + 1"
  shows "horner_loop order h ptr k (horner_ascending (drop (order + 1 - k) ptr) h)
         = horner_ascending ptr h"
  using assms
proof (induction "order + 1 - k" arbitrary: k)
  case 0
  then have "k = order + 1" by simp
  then show ?case by (simp add: horner_loop_done)
next
  case (Suc d)
  then have k: "k \<le> order" by simp
  have len: "order - k < length ptr" using Suc.prems by simp
  have dr: "drop (order - k) ptr = ptr ! (order - k) # drop (order + 1 - k) ptr"
    using Cons_nth_drop_Suc [OF len] k by (simp add: Suc_diff_le)
  have ne: "drop (order + 1 - k) ptr \<noteq> []"
    using Suc.prems k by simp
  have unfold: "horner_ascending (drop (order - k) ptr) h
      = ival_add (ival_of (ptr ! (order - k)))
          (ival_mul (horner_ascending (drop (order + 1 - k) ptr) h) h)"
    using ne by (cases "drop (order + 1 - k) ptr") (simp_all add: dr)
  have "horner_loop order h ptr (Suc k) (horner_ascending (drop (order + 1 - Suc k) ptr) h)
        = horner_ascending ptr h"
    using Suc.hyps(1) [of "Suc k"] Suc.hyps(2) Suc.prems k by simp
  then show ?case
    using k by (simp add: horner_loop_step unfold)
qed

text \<open>
  C8 (amended). For a coefficient slice of \<open>order + 1\<close> entries the evaluator returns
  \<open>c[0] + (c[1] + (\<dots> + (c[O-1] + c[O]\<cdot>h)\<cdot>h \<dots>)\<cdot>h)\<cdot>h\<close>, computed with the interval
  addition and multiplication: the innermost Horner term uses \<open>c[O]\<close> and the outermost
  addition uses \<open>c[0]\<close>.
\<close>

theorem C8_horner_eval_ascending:
  assumes "length c = order + 1"
  shows "horner_eval order h c = horner_ascending c h"
proof -
  have "drop order c = [c ! order]"
    using assms by (metis Cons_nth_drop_Suc Suc_eq_plus1 drop_all lessI order_refl)
  then have "horner_ascending (drop (order + 1 - 1) c) h = ival_of (c ! order)"
    by simp
  then show ?thesis
    using horner_loop_ascending [OF assms, of 1 h] by (simp add: horner_eval_def)
qed

theorem C8_horner_eval_ascending_witness:
  "length [1, 2, 3 :: real] = 2 + 1 \<and>
   horner_eval 2 \<lparr>lower = 0, upper = 1\<rparr> [1, 2, 3 :: real] = \<lparr>lower = 1, upper = 6\<rparr>"
  using C8_horner_eval_ascending [of "[1, 2, 3 :: real]" 2 "\<lparr>lower = 0, upper = 1\<rparr>"]
  by (simp add: ival_add_def ival_mul_def ival_of_def std_min_def std_max_def)

text \<open>
  C8 (as stated) fails. With order 1, coefficients \<open>c = [0, 1]\<close> and \<open>h = [2, 2]\<close> the
  evaluator returns \<open>0 + 1\<cdot>2 = [2, 2]\<close>, whereas the form of the specification,
  \<open>c[1] + c[0]\<cdot>h\<close>, is \<open>1 + 0\<cdot>2 = [1, 1]\<close>. All values involved are small integers,
  on which binary64 arithmetic is exact.
\<close>

theorem C8_horner_spec_counterexample:
  "horner_eval 1 \<lparr>lower = 2, upper = 2\<rparr> [0, 1 :: real] = \<lparr>lower = 2, upper = 2\<rparr> \<and>
   horner_spec [0, 1 :: real] \<lparr>lower = 2, upper = 2\<rparr> = \<lparr>lower = 1, upper = 1\<rparr> \<and>
   horner_eval 1 \<lparr>lower = 2, upper = 2\<rparr> [0, 1 :: real]
     \<noteq> horner_spec [0, 1 :: real] \<lparr>lower = 2, upper = 2\<rparr>"
  by (simp add: horner_eval_def horner_spec_def horner_loop_step horner_loop_done
      ival_add_def ival_mul_def ival_of_def std_min_def std_max_def)

section \<open>Properties of the binary search\<close>

lemma lower_bound_range: "first \<le> lower_bound cmp first len \<and> lower_bound cmp first len \<le> first + len"
proof (induction cmp first len rule: lower_bound.induct)
  case (1 cmp first len)
  show ?case
  proof (cases "0 < len")
    case False
    then show ?thesis by (subst lower_bound.simps, subst lower_bound.simps) simp
  next
    case True
    show ?thesis
    proof (cases "cmp (first + len div 2)")
      case c: True
      have eq: "lower_bound cmp first len = lower_bound cmp (first + len div 2 + 1) (len - len div 2 - 1)"
        using True c by (subst lower_bound.simps) (simp add: Let_def)
      have "len div 2 < len" using True by simp
      then show ?thesis
        using "1.IH"(1) [OF True refl refl c] unfolding eq by linarith
    next
      case c: False
      have eq: "lower_bound cmp first len = lower_bound cmp first (len div 2)"
        using True c by (subst lower_bound.simps) (simp add: Let_def)
      show ?thesis
        using "1.IH"(2) [OF True refl refl c] unfolding eq by linarith
    qed
  qed
qed

lemma lower_bound_partition:
  assumes "first \<le> m" and "m \<le> first + len"
    and "\<And>i. first \<le> i \<Longrightarrow> i < m \<Longrightarrow> cmp i"
    and "\<And>i. m \<le> i \<Longrightarrow> i < first + len \<Longrightarrow> \<not> cmp i"
  shows "lower_bound cmp first len = m"
  using assms
proof (induction cmp first len rule: lower_bound.induct)
  case (1 cmp first len)
  show ?case
  proof (cases "0 < len")
    case False
    then show ?thesis using "1.prems" by (subst lower_bound.simps) simp
  next
    case True
    have hl: "len div 2 < len" using True by simp
    show ?thesis
    proof (cases "cmp (first + len div 2)")
      case c: True
      have eq: "lower_bound cmp first len = lower_bound cmp (first + len div 2 + 1) (len - len div 2 - 1)"
        using True c by (subst lower_bound.simps) (simp add: Let_def)
      have "\<not> m \<le> first + len div 2"
        using "1.prems"(4) [of "first + len div 2"] c hl by auto
      then have m: "first + len div 2 + 1 \<le> m" by simp
      have "lower_bound cmp (first + len div 2 + 1) (len - len div 2 - 1) = m"
      proof (rule "1.IH"(1) [OF True refl refl c m])
        show "m \<le> first + len div 2 + 1 + (len - len div 2 - 1)"
          using "1.prems"(2) hl by simp
        show "\<And>i. first + len div 2 + 1 \<le> i \<Longrightarrow> i < m \<Longrightarrow> cmp i"
          using "1.prems"(3) by simp
        show "\<And>i. m \<le> i \<Longrightarrow> i < first + len div 2 + 1 + (len - len div 2 - 1) \<Longrightarrow> \<not> cmp i"
          using "1.prems"(4) hl by simp
      qed
      then show ?thesis by (simp add: eq)
    next
      case c: False
      have eq: "lower_bound cmp first len = lower_bound cmp first (len div 2)"
        using True c by (subst lower_bound.simps) (simp add: Let_def)
      have "\<not> first + len div 2 < m"
        using "1.prems"(3) [of "first + len div 2"] c by auto
      then have m: "m \<le> first + len div 2" by simp
      have "lower_bound cmp first (len div 2) = m"
      proof (rule "1.IH"(2) [OF True refl refl c "1.prems"(1) m])
        show "\<And>i. first \<le> i \<Longrightarrow> i < m \<Longrightarrow> cmp i"
          using "1.prems"(3) by simp
        show "\<And>i. m \<le> i \<Longrightarrow> i < first + len div 2 \<Longrightarrow> \<not> cmp i"
          using "1.prems"(4) hl by simp
      qed
      then show ?thesis by (simp add: eq)
    qed
  qed
qed

section \<open>Trees over a single node\<close>

lemma lower_bound_const:
  assumes "\<And>i. first \<le> i \<Longrightarrow> i < first + len \<Longrightarrow> cmp i = v"
  shows "lower_bound cmp first len = (if v then first + len else first)"
proof (cases v)
  case True
  show ?thesis
    using lower_bound_partition [of first "first + len" len cmp] assms True by simp
next
  case False
  show ?thesis
    using lower_bound_partition [of first first len cmp] assms False by simp
qed

lemma split_search_equal_codes:
  assumes "b \<le> e" and "\<And>i. b \<le> i \<Longrightarrow> i < e \<Longrightarrow> mc ! i = c"
  shows "split_search mc b e s = b \<or> split_search mc b e s = e"
proof -
  have "lower_bound (\<lambda>i. (mc ! i AND split_mask s) < 1) b (e - b)
        = (if (c AND split_mask s) < 1 then b + (e - b) else b)"
    by (rule lower_bound_const) (use assms in simp)
  then show ?thesis using assms(1) by (simp add: split_search_def)
qed

lemma find_split_no_flip:
  assumes "\<And>s'. split_search mc b e s' = b \<or> split_search mc b e s' = e"
    and "split_ptr = b \<or> split_ptr = e" and "s \<le> 63"
  shows "\<exists>p. find_split mc b e s split_ptr = (True, 63, p)"
  using assms(2,3)
proof (induction "63 - s" arbitrary: s split_ptr)
  case 0
  then have "s = 63" by simp
  then show ?case using "0.prems" by (subst find_split.simps) auto
next
  case (Suc d)
  then have s: "s < 63" by simp
  have "\<exists>p. find_split mc b e (s + 1) (split_search mc b e (s + 1)) = (True, 63, p)"
    using Suc.hyps(1) [of "s + 1"] Suc.hyps(2) assms(1) s by simp
  then show ?case using Suc.prems s by (subst find_split.simps) auto
qed

lemma construct_single_leaf:
  assumes cl: "classify mc ls us (root_node nparts) = (leaf, 0, 0)"
    and "nparts \<le> UINT32_MAX"
  shows "construct_bvh_tree ndebug indet nparts mc ls us
         = (if ndebug then Some (Inr [leaf\<lparr>nn_level := 1\<rparr>])
            else if lb leaf = default_lb then Some (Inl Assertion_Failed)
            else if ub leaf = default_ub then Some (Inl Assertion_Failed)
            else Some (Inr [leaf\<lparr>nn_level := 1\<rparr>]))"
proof -
  have "construct_bvh_tree ndebug indet nparts mc ls us = Some (Inr [leaf\<lparr>nn_level := 1\<rparr>])"
    if "ndebug \<or> lb leaf \<noteq> default_lb \<and> ub leaf \<noteq> default_ub"
    using assms that
    by (auto simp: construct_bvh_tree_def build_loop.simps level_step_def Let_def
        UINT32_MAX_def SIZE_MAX_def u32_def u32_sub_def resize_def step1_node_def
        prefix_sum_def scan_node_def step4_node_def backward_pass_def)
  moreover have "construct_bvh_tree ndebug indet nparts mc ls us = Some (Inl Assertion_Failed)"
    if "\<not> ndebug" and "lb leaf = default_lb \<or> ub leaf = default_ub"
    using assms that
    by (auto simp: construct_bvh_tree_def build_loop.simps level_step_def Let_def
        UINT32_MAX_def SIZE_MAX_def u32_def u32_sub_def resize_def step1_node_def
        prefix_sum_def scan_node_def step4_node_def backward_pass_def)
  ultimately show ?thesis by auto
qed

lemma classify_no_particle: "classify mc ls us (root_node 0) = (root_node 0, 0, 0)"
  by (simp add: classify_def root_node_def u32_sub_def leaf_aabb_def)

text \<open>
  C10 (as stated) fails in a build with assertions: with no particle, and empty arrays of
  codes and boxes, no tree is produced. The root is classified a leaf and keeps the box
  it was created with, and \<open>assert(cur_node.lb != default_lb)\<close> of step 4 fails.
\<close>

theorem C10_assertion_counterexample:
  "construct_bvh_tree False
     \<lparr>nbegin = 0, nend = 0, parent = 0, left = 0, right = 0,
      lb = default_lb, ub = default_ub, nn_level = 0, split_idx = 0\<rparr>
     0 [] [] []
   = Some (Inl Assertion_Failed)
   \<and>
   construct_bvh_tree False
     \<lparr>nbegin = 0, nend = 0, parent = 0, left = 0, right = 0,
      lb = default_lb, ub = default_ub, nn_level = 0, split_idx = 0\<rparr>
     0 [] [] []
   \<noteq> Some (Inr [\<lparr>nbegin = 0, nend = 0, parent = - 1, left = - 1, right = - 1,
                  lb = (PInf, PInf, PInf, PInf), ub = (NInf, NInf, NInf, NInf),
                  nn_level = 1, split_idx = 0\<rparr>])"
proof -
  have "construct_bvh_tree False
          \<lparr>nbegin = 0, nend = 0, parent = 0, left = 0, right = 0,
           lb = default_lb, ub = default_ub, nn_level = 0, split_idx = 0\<rparr>
          0 [] [] []
        = Some (Inl Assertion_Failed)"
    using construct_single_leaf [OF classify_no_particle, where ndebug = False]
    by (simp add: UINT32_MAX_def root_node_def)
  then show ?thesis by simp
qed

text \<open>
  C10 (amended). With no particle the root is classified a leaf at once (\<open>end - begin\<close>
  is not greater than 1) and keeps the initial box \<open>(+\<infinity>, -\<infinity>)\<close>. In a build with
  \<open>NDEBUG\<close> nothing is added to the tree and the backward pass has nothing to do: the
  tree is the root alone, with the empty range \<open>[0, 0)\<close>, \<open>split_idx = 0\<close>,
  \<open>nn_level = 1\<close> and the initial box, a node whose range does not satisfy
  \<open>end > begin\<close> and whose box is not finite. In a build with assertions the assertion
  of step 4 on the box of a leaf fails and no tree is produced.
\<close>

theorem C10_empty_input:
  "construct_bvh_tree True indet 0 mc ls us
     = Some (Inr [\<lparr>nbegin = 0, nend = 0, parent = - 1, left = - 1, right = - 1,
                    lb = (PInf, PInf, PInf, PInf), ub = (NInf, NInf, NInf, NInf),
                    nn_level = 1, split_idx = 0\<rparr>])
   \<and> construct_bvh_tree False indet 0 mc ls us = Some (Inl Assertion_Failed)"
proof -
  have "construct_bvh_tree True indet 0 mc ls us
        = Some (Inr [(root_node 0)\<lparr>nn_level := 1\<rparr>])"
    using construct_single_leaf [OF classify_no_particle, where ndebug = True]
    by (simp add: UINT32_MAX_def)
  moreover have "construct_bvh_tree False indet 0 mc ls us = Some (Inl Assertion_Failed)"
    using construct_single_leaf [OF classify_no_particle, where ndebug = False]
    by (simp add: UINT32_MAX_def root_node_def)
  ultimately show ?thesis
    by (simp add: root_node_def default_lb_def default_ub_def)
qed

lemma std_min_float: "std_min (a::float) b = min a b"
  by (auto simp: std_min_def min_def)

lemma std_max_float: "std_max (a::float) b = max a b"
  by (auto simp: std_max_def max_def)

lemma PInf_top [simp]: "(a::float) \<le> PInf"
  by (cases a) simp_all

lemma NInf_bot [simp]: "NInf \<le> (a::float)"
  by simp

lemma classify_identical_codes4:
  "classify [c, c, c, c] [l0, l1, l2, l3] [u0, u1, u2, u3] (root_node 4)
   = (\<lparr>nbegin = 0, nend = 4, parent = - 1, left = - 1, right = - 1,
       lb = min4 (min4 (min4 (min4 default_lb l0) l1) l2) l3,
       ub = max4 (max4 (max4 (max4 default_ub u0) u1) u2) u3,
       nn_level = 0, split_idx = 63\<rparr>, 0, 0)"
proof -
  have eq: "\<And>i. 0 \<le> i \<Longrightarrow> i < 4 \<Longrightarrow> [c, c, c, c] ! i = c"
    by (simp add: nth_Cons split: nat.splits)
  have ss: "\<And>s'. split_search [c, c, c, c] 0 4 s' = 0 \<or> split_search [c, c, c, c] 0 4 s' = 4"
    by (rule split_search_equal_codes [where c = c]) (use eq in simp_all)
  obtain p where fs: "find_split [c, c, c, c] 0 4 0 (split_search [c, c, c, c] 0 4 0) = (True, 63, p)"
    using find_split_no_flip [of "[c, c, c, c]" 0 4 "split_search [c, c, c, c] 0 4 0" 0] ss
    by auto
  have upt: "[0..<4] = [0, 1, 2, 3::nat]"
    by (simp add: upt_rec)
  show ?thesis
    by (simp add: classify_def root_node_def u32_sub_def fs leaf_aabb_def upt)
qed

lemma min4_default_lb: "min4 a b = default_lb \<longleftrightarrow> a = default_lb \<and> b = default_lb"
proof -
  have m: "\<And>x y :: float. std_min x y = PInf \<longleftrightarrow> x = PInf \<and> y = PInf"
    by (auto simp: std_min_def less_float_def elim: less_eq_float.elims)
  show ?thesis
    by (cases a; cases b) (auto simp: default_lb_def m)
qed

lemma max4_default_ub: "max4 a b = default_ub \<longleftrightarrow> a = default_ub \<and> b = default_ub"
proof -
  have m: "\<And>x y :: float. std_max x y = NInf \<longleftrightarrow> x = NInf \<and> y = NInf"
    by (auto simp: std_max_def less_float_def elim: less_eq_float.elims)
  show ?thesis
    by (cases a; cases b) (auto simp: default_ub_def m)
qed

lemma min4_fold_Min:
  "min4 (min4 (min4 (min4 default_lb l0) l1) l2) l3
   = (case (l0, l1, l2, l3) of
        ((x0, y0, z0, r0), (x1, y1, z1, r1), (x2, y2, z2, r2), (x3, y3, z3, r3)) \<Rightarrow>
           (Min {x0, x1, x2, x3}, Min {y0, y1, y2, y3},
            Min {z0, z1, z2, z3}, Min {r0, r1, r2, r3}))"
  by (cases l0; cases l1; cases l2; cases l3)
     (simp add: default_lb_def std_min_float min.absorb2 min.assoc)

lemma max4_fold_Max:
  "max4 (max4 (max4 (max4 default_ub u0) u1) u2) u3
   = (case (u0, u1, u2, u3) of
        ((x0, y0, z0, r0), (x1, y1, z1, r1), (x2, y2, z2, r2), (x3, y3, z3, r3)) \<Rightarrow>
           (Max {x0, x1, x2, x3}, Max {y0, y1, y2, y3},
            Max {z0, z1, z2, z3}, Max {r0, r1, r2, r3}))"
  by (cases u0; cases u1; cases u2; cases u3)
     (simp add: default_ub_def std_max_float max.absorb2 max.assoc)

lemma construct_identical_codes4:
  assumes "ndebug \<or>
           (l0, l1, l2, l3) \<noteq> (default_lb, default_lb, default_lb, default_lb) \<and>
           (u0, u1, u2, u3) \<noteq> (default_ub, default_ub, default_ub, default_ub)"
  shows "construct_bvh_tree ndebug indet 4 [c, c, c, c] [l0, l1, l2, l3] [u0, u1, u2, u3]
         = Some (Inr [\<lparr>nbegin = 0, nend = 4, parent = - 1, left = - 1, right = - 1,
                        lb = min4 (min4 (min4 (min4 default_lb l0) l1) l2) l3,
                        ub = max4 (max4 (max4 (max4 default_ub u0) u1) u2) u3,
                        nn_level = 1, split_idx = 63\<rparr>])"
proof -
  have np: "4 \<le> UINT32_MAX" by (simp add: UINT32_MAX_def)
  show ?thesis
    using construct_single_leaf
        [OF classify_identical_codes4 [of c l0 l1 l2 l3 u0 u1 u2 u3] np,
         where ndebug = ndebug and indet = indet] assms
    by (auto simp: min4_default_lb max4_default_ub)
qed

text \<open>
  C7 (amended). For four particles with one and the same Morton code the tree is the root
  alone, a leaf with the range \<open>[0, 4)\<close>, no parent and no children, \<open>nn_level = 1\<close>,
  and the coordinate-wise minimum and maximum of the four input boxes as its box. The
  search for a bit flip stops at the last bit index: \<open>split_idx\<close> is 63. This holds
  in a build with \<open>NDEBUG\<close> for all boxes, and in a build with assertions unless all
  four particles have the lower box \<open>default_lb\<close> or all four have the upper box
  \<open>default_ub\<close> (the assertions of step 4 then fail).
\<close>

theorem C7_identical_codes:
  "construct_bvh_tree True indet 4 [c, c, c, c] [l0, l1, l2, l3] [u0, u1, u2, u3]
     = Some (Inr [\<lparr>nbegin = 0, nend = 4, parent = - 1, left = - 1, right = - 1,
                    lb = (case (l0, l1, l2, l3) of
                            ((x0, y0, z0, r0), (x1, y1, z1, r1), (x2, y2, z2, r2), (x3, y3, z3, r3)) \<Rightarrow>
                              (Min {x0, x1, x2, x3}, Min {y0, y1, y2, y3},
                               Min {z0, z1, z2, z3}, Min {r0, r1, r2, r3})),
                    ub = (case (u0, u1, u2, u3) of
                            ((x0, y0, z0, r0), (x1, y1, z1, r1), (x2, y2, z2, r2), (x3, y3, z3, r3)) \<Rightarrow>
                              (Max {x0, x1, x2, x3}, Max {y0, y1, y2, y3},
                               Max {z0, z1, z2, z3}, Max {r0, r1, r2, r3})),
                    nn_level = 1, split_idx = 63\<rparr>])
   \<and>
   ((l0, l1, l2, l3) \<noteq> (default_lb, default_lb, default_lb, default_lb) \<and>
    (u0, u1, u2, u3) \<noteq> (default_ub, default_ub, default_ub, default_ub) \<longrightarrow>
    construct_bvh_tree False indet 4 [c, c, c, c] [l0, l1, l2, l3] [u0, u1, u2, u3]
     = Some (Inr [\<lparr>nbegin = 0, nend = 4, parent = - 1, left = - 1, right = - 1,
                    lb = (case (l0, l1, l2, l3) of
                            ((x0, y0, z0, r0), (x1, y1, z1, r1), (x2, y2, z2, r2), (x3, y3, z3, r3)) \<Rightarrow>
                              (Min {x0, x1, x2, x3}, Min {y0, y1, y2, y3},
                               Min {z0, z1, z2, z3}, Min {r0, r1, r2, r3})),
                    ub = (case (u0, u1, u2, u3) of
                            ((x0, y0, z0, r0), (x1, y1, z1, r1), (x2, y2, z2, r2), (x3, y3, z3, r3)) \<Rightarrow>
                              (Max {x0, x1, x2, x3}, Max {y0, y1, y2, y3},
                               Max {z0, z1, z2, z3}, Max {r0, r1, r2, r3})),
                    nn_level = 1, split_idx = 63\<rparr>]))"
  using construct_identical_codes4 [of True l0 l1 l2 l3 u0 u1 u2 u3 indet c]
    construct_identical_codes4 [of False l0 l1 l2 l3 u0 u1 u2 u3 indet c]
  unfolding min4_fold_Min max4_fold_Max by blast

theorem C7_identical_codes_witness:
  "(((Fin 0, Fin 0, Fin 0, Fin 0), (Fin 0, Fin 0, Fin 0, Fin 0),
     (Fin 0, Fin 0, Fin 0, Fin 0), (Fin 0, Fin 0, Fin 0, Fin 0))
      \<noteq> (default_lb, default_lb, default_lb, default_lb) \<and>
    ((Fin 1, Fin 1, Fin 1, Fin 1), (Fin 1, Fin 1, Fin 1, Fin 1),
     (Fin 1, Fin 1, Fin 1, Fin 1), (Fin 1, Fin 1, Fin 1, Fin 1))
      \<noteq> (default_ub, default_ub, default_ub, default_ub)) \<and>
   construct_bvh_tree False
     \<lparr>nbegin = 0, nend = 0, parent = 0, left = 0, right = 0,
      lb = default_lb, ub = default_ub, nn_level = 0, split_idx = 0\<rparr>
     4 [5, 5, 5, 5]
     [(Fin 0, Fin 0, Fin 0, Fin 0), (Fin 0, Fin 0, Fin 0, Fin 0),
      (Fin 0, Fin 0, Fin 0, Fin 0), (Fin 0, Fin 0, Fin 0, Fin 0)]
     [(Fin 1, Fin 1, Fin 1, Fin 1), (Fin 1, Fin 1, Fin 1, Fin 1),
      (Fin 1, Fin 1, Fin 1, Fin 1), (Fin 1, Fin 1, Fin 1, Fin 1)]
   = Some (Inr [\<lparr>nbegin = 0, nend = 4, parent = - 1, left = - 1, right = - 1,
                  lb = (Fin 0, Fin 0, Fin 0, Fin 0), ub = (Fin 1, Fin 1, Fin 1, Fin 1),
                  nn_level = 1, split_idx = 63\<rparr>])"
  using C7_identical_codes
    [of "\<lparr>nbegin = 0, nend = 0, parent = 0, left = 0, right = 0,
      lb = default_lb, ub = default_ub, nn_level = 0, split_idx = 0\<rparr>" 5
        "(Fin 0, Fin 0, Fin 0, Fin 0)" "(Fin 0, Fin 0, Fin 0, Fin 0)"
        "(Fin 0, Fin 0, Fin 0, Fin 0)" "(Fin 0, Fin 0, Fin 0, Fin 0)"
        "(Fin 1, Fin 1, Fin 1, Fin 1)" "(Fin 1, Fin 1, Fin 1, Fin 1)"
        "(Fin 1, Fin 1, Fin 1, Fin 1)" "(Fin 1, Fin 1, Fin 1, Fin 1)"]
  by (simp add: default_lb_def default_ub_def)

text \<open>
  C7 (as stated) fails on \<open>split_idx\<close>: for four particles with the Morton code 0 and
  the boxes \<open>[0, 1]\<close> in every coordinate, the root leaf has \<open>split_idx = 63\<close>, not 64,
  with and without assertions.
\<close>

theorem C7_split_idx_counterexample:
  "(construct_bvh_tree True
     \<lparr>nbegin = 0, nend = 0, parent = 0, left = 0, right = 0,
      lb = default_lb, ub = default_ub, nn_level = 0, split_idx = 0\<rparr>
     4 [0, 0, 0, 0]
     [(Fin 0, Fin 0, Fin 0, Fin 0), (Fin 0, Fin 0, Fin 0, Fin 0),
      (Fin 0, Fin 0, Fin 0, Fin 0), (Fin 0, Fin 0, Fin 0, Fin 0)]
     [(Fin 1, Fin 1, Fin 1, Fin 1), (Fin 1, Fin 1, Fin 1, Fin 1),
      (Fin 1, Fin 1, Fin 1, Fin 1), (Fin 1, Fin 1, Fin 1, Fin 1)]
   = Some (Inr [\<lparr>nbegin = 0, nend = 4, parent = - 1, left = - 1, right = - 1,
                  lb = (Fin 0, Fin 0, Fin 0, Fin 0), ub = (Fin 1, Fin 1, Fin 1, Fin 1),
                  nn_level = 1, split_idx = 63\<rparr>])
   \<and>
   construct_bvh_tree True
     \<lparr>nbegin = 0, nend = 0, parent = 0, left = 0, right = 0,
      lb = default_lb, ub = default_ub, nn_level = 0, split_idx = 0\<rparr>
     4 [0, 0, 0, 0]
     [(Fin 0, Fin 0, Fin 0, Fin 0), (Fin 0, Fin 0, Fin 0, Fin 0),
      (Fin 0, Fin 0, Fin 0, Fin 0), (Fin 0, Fin 0, Fin 0, Fin 0)]
     [(Fin 1, Fin 1, Fin 1, Fin 1), (Fin 1, Fin 1, Fin 1, Fin 1),
      (Fin 1, Fin 1, Fin 1, Fin 1), (Fin 1, Fin 1, Fin 1, Fin 1)]
   \<noteq> Some (Inr [\<lparr>nbegin = 0, nend = 4, parent = - 1, left = - 1, right = - 1,
                  lb = (Fin 0, Fin 0, Fin 0, Fin 0), ub = (Fin 1, Fin 1, Fin 1, Fin 1),
                  nn_level = 1, split_idx = 64\<rparr>]))
   \<and>
   (construct_bvh_tree False
     \<lparr>nbegin = 0, nend = 0, parent = 0, left = 0, right = 0,
      lb = default_lb, ub = default_ub, nn_level = 0, split_idx = 0\<rparr>
     4 [0, 0, 0, 0]
     [(Fin 0, Fin 0, Fin 0, Fin 0), (Fin 0, Fin 0, Fin 0, Fin 0),
      (Fin 0, Fin 0, Fin 0, Fin 0), (Fin 0, Fin 0, Fin 0, Fin 0)]
     [(Fin 1, Fin 1, Fin 1, Fin 1), (Fin 1, Fin 1, Fin 1, Fin 1),
      (Fin 1, Fin 1, Fin 1, Fin 1), (Fin 1, Fin 1, Fin 1, Fin 1)]
   = Some (Inr [\<lparr>nbegin = 0, nend = 4, parent = - 1, left = - 1, right = - 1,
                  lb = (Fin 0, Fin 0, Fin 0, Fin 0), ub = (Fin 1, Fin 1, Fin 1, Fin 1),
                  nn_level = 1, split_idx = 63\<rparr>])
   \<and>
   construct_bvh_tree False
     \<lparr>nbegin = 0, nend = 0, parent = 0, left = 0, right = 0,
      lb = default_lb, ub = default_ub, nn_level = 0, split_idx = 0\<rparr>
     4 [0, 0, 0, 0]
     [(Fin 0, Fin 0, Fin 0, Fin 0), (Fin 0, Fin 0, Fin 0, Fin 0),
      (Fin 0, Fin 0, Fin 0, Fin 0), (Fin 0, Fin 0, Fin 0, Fin 0)]
     [(Fin 1, Fin 1, Fin 1, Fin 1), (Fin 1, Fin 1, Fin 1, Fin 1),
      (Fin 1, Fin 1, Fin 1, Fin 1), (Fin 1, Fin 1, Fin 1, Fin 1)]
   \<noteq> Some (Inr [\<lparr>nbegin = 0, nend = 4, parent = - 1, left = - 1, right = - 1,
                  lb = (Fin 0, Fin 0, Fin 0, Fin 0), ub = (Fin 1, Fin 1, Fin 1, Fin 1),
                  nn_level = 1, split_idx = 64\<rparr>]))"
proof -
  have "construct_bvh_tree ndebug
          \<lparr>nbegin = 0, nend = 0, parent = 0, left = 0, right = 0,
      lb = default_lb, ub = default_ub, nn_level = 0, split_idx = 0\<rparr>
          4 [0, 0, 0, 0]
          [(Fin 0, Fin 0, Fin 0, Fin 0), (Fin 0, Fin 0, Fin 0, Fin 0),
      (Fin 0, Fin 0, Fin 0, Fin 0), (Fin 0, Fin 0, Fin 0, Fin 0)]
     [(Fin 1, Fin 1, Fin 1, Fin 1), (Fin 1, Fin 1, Fin 1, Fin 1),
      (Fin 1, Fin 1, Fin 1, Fin 1), (Fin 1, Fin 1, Fin 1, Fin 1)]
        = Some (Inr [\<lparr>nbegin = 0, nend = 4, parent = - 1, left = - 1, right = - 1,
                  lb = (Fin 0, Fin 0, Fin 0, Fin 0), ub = (Fin 1, Fin 1, Fin 1, Fin 1),
                  nn_level = 1, split_idx = 63\<rparr>])" for ndebug
    by (subst construct_identical_codes4)
       (simp_all add: default_lb_def default_ub_def std_min_def std_max_def less_float_def)
  then show ?thesis by simp
qed

section \<open>The integration phase on concrete inputs\<close>

text \<open>
  C2, evaluated. One particle in one batch, whose box is \<open>[1, 2]\<close> in every coordinate
  and every chunk; the atomics start from \<open>(+\<infinity>, -\<infinity>)\<close>. The upper bounds stored for
  the particle are 2, and the global upper bound of every chunk ends as 1, the maximum
  of the particle's lower bounds.
\<close>

theorem C2_global_ub_evaluated:
  "ubs (integrate_aabb (\<lambda>idx. True)
          (\<lambda>chunk_idx pidx. ((Fin 1, Fin 1, Fin 1, Fin 1), (Fin 2, Fin 2, Fin 2, Fin 2)))
          default_lb default_ub 1 1 [(0, 1)] empty_sim_data)
     = replicate 8 (Fin 2, Fin 2, Fin 2, Fin 2)
   \<and> global_lb_atomic (integrate_aabb (\<lambda>idx. True)
          (\<lambda>chunk_idx pidx. ((Fin 1, Fin 1, Fin 1, Fin 1), (Fin 2, Fin 2, Fin 2, Fin 2)))
          default_lb default_ub 1 1 [(0, 1)] empty_sim_data)
     = replicate 8 (Fin 1, Fin 1, Fin 1, Fin 1)
   \<and> global_ub_atomic (integrate_aabb (\<lambda>idx. True)
          (\<lambda>chunk_idx pidx. ((Fin 1, Fin 1, Fin 1, Fin 1), (Fin 2, Fin 2, Fin 2, Fin 2)))
          default_lb default_ub 1 1 [(0, 1)] empty_sim_data)
     = replicate 8 (Fin 1, Fin 1, Fin 1, Fin 1)"
  by code_simp

text \<open>
  C3, evaluated. Three particles and a batch width of 2: there is one batch, and every
  integration succeeds. In the row of chunk 0 the boxes of particles 0 and 1 are the
  ones computed for them; the entry of particle 2 is never written and keeps the value
  the resized array was filled with, whatever the box computation would give for it.
\<close>

theorem C3_tail_evaluated:
  "row 3 0 (lbs (integrate_aabb (\<lambda>idx. True) aabb_kernel glb0 gub0 3 2 [(0, 1)] empty_sim_data))
     = [fst (aabb_kernel 0 0), fst (aabb_kernel 0 1), zero4]
   \<and> row 3 0 (ubs (integrate_aabb (\<lambda>idx. True) aabb_kernel glb0 gub0 3 2 [(0, 1)] empty_sim_data))
     = [snd (aabb_kernel 0 0), snd (aabb_kernel 0 1), zero4]
   \<and> int_error (integrate_aabb (\<lambda>idx. True) aabb_kernel glb0 gub0 3 2 [(0, 1)] empty_sim_data)
     = False"
  by code_simp

section \<open>Arrays addressed by chunk\<close>

lemma length_store_range [simp]: "length (store_range off n f out) = length out"
  by (induction n) (simp_all add: store_range_def)

lemma nth_store_range:
  "j < length out \<Longrightarrow>
   store_range off n f out ! j = (if off \<le> j \<and> j < off + n then f (j - off) else out ! j)"
proof (induction n)
  case 0
  then show ?case by (auto simp: store_range_def)
next
  case (Suc n)
  have step: "store_range off (Suc n) f out = (store_range off n f out)[off + n := f n]"
    by (simp add: store_range_def)
  show ?case
  proof (cases "j = off + n")
    case True
    then show ?thesis using Suc.prems by (simp add: step)
  next
    case False
    then show ?thesis using Suc by (auto simp: step nth_list_update)
  qed
qed

lemma chunk_bound: "k < c \<Longrightarrow> nparts * k + nparts \<le> nparts * (c::nat)"
proof -
  assume "k < c"
  then have "nparts * Suc k \<le> nparts * c"
    by (intro mult_le_mono2) simp
  then show ?thesis by simp
qed

lemma length_row:
  "length xs = nparts * K \<Longrightarrow> k < K \<Longrightarrow> length (row nparts k xs) = nparts"
  using chunk_bound [of k K nparts] by (simp add: row_def)

lemma nth_row:
  "length xs = nparts * K \<Longrightarrow> k < K \<Longrightarrow> i < nparts \<Longrightarrow>
   row nparts k xs ! i = xs ! (nparts * k + i)"
  using chunk_bound [of k K nparts] by (simp add: row_def)

lemma row_cong:
  assumes "length xs = nparts * K" and "length ys = nparts * K" and "k < K"
    and "\<And>i. i < nparts \<Longrightarrow> xs ! (nparts * k + i) = ys ! (nparts * k + i)"
  shows "row nparts k xs = row nparts k ys"
  by (rule nth_equalityI)
     (use assms in \<open>simp_all add: length_row [where K = K] nth_row [where K = K]\<close>)

lemma outside_chunk:
  "(k::nat) \<noteq> c \<Longrightarrow> i < nparts \<Longrightarrow> \<not> (nparts * c \<le> nparts * k + i \<and> nparts * k + i < nparts * c + nparts)"
  using chunk_bound [of k c nparts] chunk_bound [of c k nparts]
  by (cases "k < c") auto

lemma row_store_range_same:
  assumes "length out = nparts * K" and "c < K"
  shows "row nparts c (store_range (nparts * c) nparts f out) = map f [0 ..< nparts]"
proof (rule nth_equalityI)
  show "length (row nparts c (store_range (nparts * c) nparts f out)) = length (map f [0 ..< nparts])"
    using assms by (simp add: length_row [where K = K])
next
  fix i assume "i < length (row nparts c (store_range (nparts * c) nparts f out))"
  then have i: "i < nparts" using assms by (simp add: length_row [where K = K])
  have "nparts * c + i < length out"
    using chunk_bound [OF assms(2), of nparts] assms(1) i by simp
  then show "row nparts c (store_range (nparts * c) nparts f out) ! i = map f [0 ..< nparts] ! i"
    using assms i by (simp add: nth_row [where K = K] nth_store_range)
qed

lemma row_store_range_other:
  assumes "length out = nparts * K" and "c < K" and "k < K" and "k \<noteq> c"
  shows "row nparts k (store_range (nparts * c) nparts f out) = row nparts k out"
proof (rule row_cong [where K = K])
  fix i assume i: "i < nparts"
  have "nparts * k + i < length out"
    using chunk_bound [OF assms(3), of nparts] assms(1) i by simp
  then show "store_range (nparts * c) nparts f out ! (nparts * k + i) = out ! (nparts * k + i)"
    using outside_chunk [OF assms(4) i] by (auto simp: nth_store_range)
qed (use assms in simp_all)

lemma length_sort_range:
  assumes "length (psort cmp (take n (drop off v))) = length (take n (drop off v))"
  shows "length (sort_range psort cmp off n v) = length v"
  using assms by (simp add: sort_range_def)

lemma row_sort_range_same:
  assumes "length v = nparts * K" and "c < K"
    and len: "length (psort cmp (row nparts c v)) = nparts"
  shows "row nparts c (sort_range psort cmp (nparts * c) nparts v) = psort cmp (row nparts c v)"
  using assms chunk_bound [OF assms(2), of nparts]
  by (simp add: row_def sort_range_def)

lemma nth_sort_range_outside:
  assumes "length (psort cmp (take n (drop off v))) = n" and "off + n \<le> length v"
    and "j < length v" and "\<not> (off \<le> j \<and> j < off + n)"
  shows "sort_range psort cmp off n v ! j = v ! j"
proof (cases "j < off")
  case True
  then show ?thesis using assms by (simp add: sort_range_def nth_append)
next
  case False
  then have ge: "off + n \<le> j" using assms(4) by simp
  define mid where "mid = psort cmp (take n (drop off v))"
  have lm: "length mid = n" using assms(1) by (simp add: mid_def)
  have l1: "length (take off v) = off" using assms(2) by simp
  have "sort_range psort cmp off n v ! j = (mid @ drop (off + n) v) ! (j - off)"
    using False l1 unfolding sort_range_def mid_def [symmetric] by (simp add: nth_append)
  also have "\<dots> = drop (off + n) v ! (j - off - length mid)"
  proof -
    have "\<not> j - off < length mid" using ge lm by simp
    then show ?thesis by (simp only: nth_append if_False)
  qed
  also have "\<dots> = v ! (off + n + (j - off - n))"
    using assms(2) lm by (simp only: nth_drop)
  also have "\<dots> = v ! j"
    using ge by simp
  finally show ?thesis .
qed

lemma row_sort_range_other:
  assumes "length v = nparts * K" and "c < K" and "k < K" and "k \<noteq> c"
    and len: "length (psort cmp (row nparts c v)) = nparts"
  shows "row nparts k (sort_range psort cmp (nparts * c) nparts v) = row nparts k v"
proof (rule row_cong [where K = K])
  show "length (sort_range psort cmp (nparts * c) nparts v) = nparts * K"
    using assms length_row [OF assms(1,2)]
    by (simp add: length_sort_range row_def)
next
  fix i assume i: "i < nparts"
  have "nparts * k + i < length v"
    using chunk_bound [OF assms(3), of nparts] assms(1) i by simp
  then show "sort_range psort cmp (nparts * c) nparts v ! (nparts * k + i) = v ! (nparts * k + i)"
    using outside_chunk [OF assms(4) i] len chunk_bound [OF assms(2), of nparts] assms(1)
    by (intro nth_sort_range_outside) (simp_all add: row_def)
qed (use assms in simp_all)

section \<open>The integration phase leaves the index vector initialised\<close>

lemma fold_preserves:
  "(\<And>x s. P s \<Longrightarrow> P (f x s)) \<Longrightarrow> P s \<Longrightarrow> P (fold f xs s)"
  by (induction xs arbitrary: s) auto

lemma sort_frame_batch_boxes:
  "sort_frame s0 s \<Longrightarrow> sort_frame s0 (batch_boxes aabb_kernel nparts batch_size idx s)"
  unfolding batch_boxes_def
  by (rule fold_preserves) (simp_all add: sort_frame_def Let_def)

lemma sort_frame_integrate_batches:
  "sort_frame s0 s \<Longrightarrow>
   sort_frame s0 (integrate_batches outcome aabb_kernel nparts batch_size idxs s)"
proof (induction idxs arbitrary: s)
  case Nil
  then show ?case by simp
next
  case (Cons idx rest)
  show ?case
  proof (cases "outcome idx")
    case True
    then show ?thesis
      using Cons.IH [OF sort_frame_batch_boxes [OF Cons.prems]] by simp
  next
    case False
    then show ?thesis using Cons.prems by (simp add: sort_frame_def)
  qed
qed

lemma sort_frame_update_global:
  "sort_frame s0 s \<Longrightarrow> sort_frame s0 (update_global nparts batch_size rng chunk_idx s)"
  by (simp add: update_global_def sort_frame_def Let_def)

lemma sort_frame_batch_int_aabb:
  "sort_frame s0 s \<Longrightarrow> sort_frame s0 (batch_int_aabb outcome aabb_kernel nparts batch_size rng s)"
  unfolding batch_int_aabb_def
  by (rule fold_preserves) (simp_all add: sort_frame_update_global sort_frame_integrate_batches)

lemma length_resize [simp]: "length (resize n v xs) = n"
  by (simp add: resize_def)

lemma length_init_vidx [simp]: "length (init_vidx nparts v) = length v"
  unfolding init_vidx_def
  by (rule fold_preserves) simp_all

lemma row_init_vidx:
  assumes "length v = nparts * nchunks" and "k < nchunks"
  shows "row nparts k (init_vidx nparts v) = [0 ..< nparts]"
proof -
  have "\<And>n. n \<le> nchunks \<Longrightarrow>
          length (fold (\<lambda>chunk_idx v. store_range (nparts * chunk_idx) nparts (\<lambda>i. i) v) [0 ..< n] v)
            = length v \<and>
          (\<forall>k<n. row nparts k
             (fold (\<lambda>chunk_idx v. store_range (nparts * chunk_idx) nparts (\<lambda>i. i) v) [0 ..< n] v)
             = [0 ..< nparts])"
  proof -
    fix n show "n \<le> nchunks \<Longrightarrow>
          length (fold (\<lambda>chunk_idx v. store_range (nparts * chunk_idx) nparts (\<lambda>i. i) v) [0 ..< n] v)
            = length v \<and>
          (\<forall>k<n. row nparts k
             (fold (\<lambda>chunk_idx v. store_range (nparts * chunk_idx) nparts (\<lambda>i. i) v) [0 ..< n] v)
             = [0 ..< nparts])"
    proof (induction n)
      case 0
      then show ?case by simp
    next
      case (Suc n)
      define w where "w = fold (\<lambda>chunk_idx v. store_range (nparts * chunk_idx) nparts (\<lambda>i. i) v) [0 ..< n] v"
      have lw: "length w = nparts * nchunks" and rows: "\<forall>k<n. row nparts k w = [0 ..< nparts]"
        using Suc assms(1) by (simp_all add: w_def)
      have n: "n < nchunks" using Suc.prems by simp
      have "\<forall>k<Suc n. row nparts k (store_range (nparts * n) nparts (\<lambda>i. i) w) = [0 ..< nparts]"
      proof (intro allI impI)
        fix k assume "k < Suc n"
        show "row nparts k (store_range (nparts * n) nparts (\<lambda>i. i) w) = [0 ..< nparts]"
        proof (cases "k = n")
          case True
          then show ?thesis
            using row_store_range_same [OF lw n, of "\<lambda>i. i"] by simp
        next
          case False
          then have "k < n" using \<open>k < Suc n\<close> by simp
          then show ?thesis
            using row_store_range_other [OF lw n _ False, of "\<lambda>i. i"] rows n by simp
        qed
      qed
      then show ?case using lw assms(1) by (simp add: w_def)
    qed
  qed
  from this [of nchunks] show ?thesis using assms(2) by (simp add: init_vidx_def)
qed

text \<open>The state at the end of the integration phase, as far as the sort depends on it.\<close>

lemma integrate_aabb_sort_data:
  assumes s_def: "s = integrate_aabb outcome aabb_kernel glb0 gub0 nparts batch_size ranges s0"
  shows "length (lbs s) = nparts * nchunks" and "length (ubs s) = nparts * nchunks"
    and "length (mcodes s) = nparts * nchunks" and "length (vidx s) = nparts * nchunks"
    and "length (srt_lbs s) = nparts * nchunks" and "length (srt_ubs s) = nparts * nchunks"
    and "length (srt_mcodes s) = nparts * nchunks"
    and "length (global_lb s) = nchunks" and "length (global_ub s) = nchunks"
    and "length (global_lb_atomic s) = nchunks" and "length (global_ub_atomic s) = nchunks"
    and "k < nchunks \<Longrightarrow> row nparts k (vidx s) = [0 ..< nparts]"
proof -
  define s1 where "s1 = s0\<lparr>lbs := resize (nparts * nchunks) zero4 (lbs s0),
                ubs := resize (nparts * nchunks) zero4 (ubs s0),
                mcodes := resize (nparts * nchunks) 0 (mcodes s0),
                vidx := resize (nparts * nchunks) 0 (vidx s0),
                srt_lbs := resize (nparts * nchunks) zero4 (srt_lbs s0),
                srt_ubs := resize (nparts * nchunks) zero4 (srt_ubs s0),
                srt_mcodes := resize (nparts * nchunks) 0 (srt_mcodes s0),
                global_lb_atomic := replicate nchunks glb0,
                global_ub_atomic := replicate nchunks gub0,
                global_lb := resize nchunks zero4 (global_lb s0),
                global_ub := resize nchunks zero4 (global_ub s0),
                int_error := False\<rparr>"
  define s2 where "s2 = s1\<lparr>vidx := init_vidx nparts (vidx s1)\<rparr>"
  have s: "s = fold (batch_int_aabb outcome aabb_kernel nparts batch_size) ranges s2"
    by (simp add: s_def integrate_aabb_def s1_def s2_def Let_def)
  have "sort_frame s2 s"
    unfolding s
  proof (rule fold_preserves)
    show "\<And>x t. sort_frame s2 t \<Longrightarrow>
            sort_frame s2 (batch_int_aabb outcome aabb_kernel nparts batch_size x t)"
      by (rule sort_frame_batch_int_aabb)
    show "sort_frame s2 s2" by (simp add: sort_frame_def)
  qed
  then have fr: "mcodes s = mcodes s2" "vidx s = vidx s2" "srt_lbs s = srt_lbs s2"
    "srt_ubs s = srt_ubs s2" "srt_mcodes s = srt_mcodes s2" "global_lb s = global_lb s2"
    "global_ub s = global_ub s2" "length (lbs s) = length (lbs s2)"
    "length (ubs s) = length (ubs s2)"
    "length (global_lb_atomic s) = length (global_lb_atomic s2)"
    "length (global_ub_atomic s) = length (global_ub_atomic s2)"
    by (simp_all add: sort_frame_def)
  show "length (lbs s) = nparts * nchunks" "length (ubs s) = nparts * nchunks"
    "length (mcodes s) = nparts * nchunks" "length (vidx s) = nparts * nchunks"
    "length (srt_lbs s) = nparts * nchunks" "length (srt_ubs s) = nparts * nchunks"
    "length (srt_mcodes s) = nparts * nchunks"
    "length (global_lb s) = nchunks" "length (global_ub s) = nchunks"
    "length (global_lb_atomic s) = nchunks" "length (global_ub_atomic s) = nchunks"
    by (simp_all add: fr s2_def s1_def)
  show "k < nchunks \<Longrightarrow> row nparts k (vidx s) = [0 ..< nparts]"
    by (simp add: fr s2_def s1_def row_init_vidx)
qed

section \<open>Morton sort of one chunk\<close>

lemma encode_sort_chunk_fields:
  fixes s :: sim_data and nparts c :: nat
    and encode :: "float4 \<Rightarrow> float4 \<Rightarrow> float4 \<Rightarrow> float4 \<Rightarrow> 64 word"
    and psort :: "(nat \<Rightarrow> nat \<Rightarrow> bool) \<Rightarrow> nat list \<Rightarrow> nat list"
  defines "t \<equiv> encode_sort_chunk encode psort nparts c s"
  shows "lbs t = lbs s" and "ubs t = ubs s"
    and "mcodes t = store_range (nparts * c) nparts
                 (\<lambda>pidx. encode (lbs s ! (nparts * c + pidx)) (ubs s ! (nparts * c + pidx))
                            (global_lb_atomic s ! c) (global_ub_atomic s ! c)) (mcodes s)"
    and "vidx t = sort_range psort
                    (\<lambda>idx1 idx2. mcodes t ! (nparts * c + idx1) < mcodes t ! (nparts * c + idx2))
                    (nparts * c) nparts (vidx s)"
    and "srt_lbs t = isort_apply (vidx t) (nparts * c) nparts (srt_lbs s) (lbs s)"
    and "srt_ubs t = isort_apply (vidx t) (nparts * c) nparts (srt_ubs s) (ubs s)"
    and "srt_mcodes t = isort_apply (vidx t) (nparts * c) nparts (srt_mcodes s) (mcodes t)"
    and "length (global_lb t) = length (global_lb s)"
  by (simp_all add: encode_sort_chunk_def Let_def t_def)

lemma sorts_by_keyD:
  fixes key :: "nat \<Rightarrow> 64 word"
  assumes "sorts_by_key psort"
  shows "mset (psort (\<lambda>a b. key a < key b) xs) = mset xs"
    and "sorted (map key (psort (\<lambda>a b. key a < key b) xs))"
  using assms [unfolded sorts_by_key_def, rule_format, of key xs] by simp_all

lemma sort_lengths_encode_sort_chunk:
  assumes "sorts_by_key psort" and "sort_lengths nparts K s" and "c < K"
  shows "sort_lengths nparts K (encode_sort_chunk encode psort nparts c s)"
proof -
  define m where "m = mcodes (encode_sort_chunk encode psort nparts c s)"
  have "mset (psort (\<lambda>a b. m ! (nparts * c + a) < m ! (nparts * c + b)) (take nparts (drop (nparts * c) (vidx s))))
        = mset (take nparts (drop (nparts * c) (vidx s)))"
    using sorts_by_keyD(1) [OF assms(1), of "\<lambda>i. m ! (nparts * c + i)"] by simp
  then have "length (psort (\<lambda>a b. m ! (nparts * c + a) < m ! (nparts * c + b)) (take nparts (drop (nparts * c) (vidx s))))
        = length (take nparts (drop (nparts * c) (vidx s)))"
    by (metis size_mset)
  then show ?thesis
    using assms(2) unfolding sort_lengths_def m_def
    by (simp add: encode_sort_chunk_fields isort_apply_def length_sort_range)
qed

lemma row_isort_apply_same:
  assumes "length out = nparts * K" and "length v = nparts * K" and "c < K"
  shows "row nparts c (isort_apply v (nparts * c) nparts out src)
         = map (\<lambda>j. src ! (nparts * c + j)) (row nparts c v)"
proof -
  have "row nparts c v = map (\<lambda>i. v ! (nparts * c + i)) [0 ..< nparts]"
    by (rule nth_equalityI)
       (use assms in \<open>simp_all add: length_row [where K = K] nth_row [where K = K]\<close>)
  then show ?thesis
    using row_store_range_same [OF assms(1,3)] by (simp add: isort_apply_def comp_def)
qed

lemma chunk_sorted_encode_sort_chunk:
  assumes srt: "sorts_by_key psort" and len: "sort_lengths nparts K s" and c: "c < K"
    and perm: "mset (row nparts c (vidx s)) = mset [0 ..< nparts]"
  shows "chunk_sorted nparts c (encode_sort_chunk encode psort nparts c s)"
proof -
  define t where "t = encode_sort_chunk encode psort nparts c s"
  define key where "key = (\<lambda>i. mcodes t ! (nparts * c + i))"
  have lt: "sort_lengths nparts K t"
    unfolding t_def by (rule sort_lengths_encode_sort_chunk [OF srt len c])
  have ls: "length (vidx s) = nparts * K" "length (srt_lbs s) = nparts * K"
    "length (srt_ubs s) = nparts * K" "length (srt_mcodes s) = nparts * K"
    using len by (simp_all add: sort_lengths_def)
  have ltt: "length (vidx t) = nparts * K" "length (mcodes t) = nparts * K"
    "length (lbs t) = nparts * K" "length (ubs t) = nparts * K"
    using lt by (simp_all add: sort_lengths_def)
  have ps: "mset (psort (\<lambda>a b. key a < key b) (row nparts c (vidx s))) = mset (row nparts c (vidx s))"
    "sorted (map key (psort (\<lambda>a b. key a < key b) (row nparts c (vidx s))))"
    using sorts_by_keyD [OF srt, of key] by simp_all
  have lps: "length (psort (\<lambda>a b. key a < key b) (row nparts c (vidx s))) = nparts"
    using ps(1) perm by (metis size_mset length_upt diff_zero)
  have vt: "row nparts c (vidx t) = psort (\<lambda>a b. key a < key b) (row nparts c (vidx s))"
    unfolding t_def encode_sort_chunk_fields key_def
    using row_sort_range_same [OF ls(1) c] lps
    by (simp add: key_def t_def encode_sort_chunk_fields)
  have permt: "mset (row nparts c (vidx t)) = mset [0 ..< nparts]"
    using vt ps(1) perm by simp
  have inr: "\<And>j. j \<in> set (row nparts c (vidx t)) \<Longrightarrow> j < nparts"
    using permt by (metis atLeastLessThan_iff mset_eq_setD set_upt)
  have rowkey: "\<And>xs. length xs = nparts * K \<Longrightarrow>
        map (\<lambda>j. xs ! (nparts * c + j)) (row nparts c (vidx t))
        = map (\<lambda>j. row nparts c xs ! j) (row nparts c (vidx t))"
    using inr c by (simp add: nth_row [where K = K])
  have m: "row nparts c (srt_mcodes t) = map key (row nparts c (vidx t))"
    unfolding key_def
    using row_isort_apply_same [OF ls(4) ltt(1) c]
    by (simp add: t_def encode_sort_chunk_fields)
  have l: "row nparts c (srt_lbs t) = map (\<lambda>j. lbs t ! (nparts * c + j)) (row nparts c (vidx t))"
    using row_isort_apply_same [OF ls(2) ltt(1) c]
    by (simp add: t_def encode_sort_chunk_fields)
  have u: "row nparts c (srt_ubs t) = map (\<lambda>j. ubs t ! (nparts * c + j)) (row nparts c (vidx t))"
    using row_isort_apply_same [OF ls(3) ltt(1) c]
    by (simp add: t_def encode_sort_chunk_fields)
  have "sorted (row nparts c (srt_mcodes t))"
    using ps(2) by (simp add: m vt)
  moreover have "row nparts c (srt_mcodes t)
      = map (\<lambda>j. row nparts c (mcodes t) ! j) (row nparts c (vidx t))"
    using rowkey [OF ltt(2)] by (simp add: m key_def)
  moreover have "row nparts c (srt_lbs t) = map (\<lambda>j. row nparts c (lbs t) ! j) (row nparts c (vidx t))"
    using rowkey [OF ltt(3)] by (simp add: l)
  moreover have "row nparts c (srt_ubs t) = map (\<lambda>j. row nparts c (ubs t) ! j) (row nparts c (vidx t))"
    using rowkey [OF ltt(4)] by (simp add: u)
  ultimately show ?thesis
    using permt unfolding chunk_sorted_def t_def by simp
qed

lemma rows_encode_sort_chunk_other:
  fixes s :: sim_data and nparts c k K :: nat
    and encode :: "float4 \<Rightarrow> float4 \<Rightarrow> float4 \<Rightarrow> float4 \<Rightarrow> 64 word"
    and psort :: "(nat \<Rightarrow> nat \<Rightarrow> bool) \<Rightarrow> nat list \<Rightarrow> nat list"
  assumes srt: "sorts_by_key psort" and len: "sort_lengths nparts K s" and c: "c < K"
    and k: "k < K" and kc: "k \<noteq> c"
  defines "t \<equiv> encode_sort_chunk encode psort nparts c s"
  shows "row nparts k (vidx t) = row nparts k (vidx s)"
    and "row nparts k (mcodes t) = row nparts k (mcodes s)"
    and "row nparts k (srt_mcodes t) = row nparts k (srt_mcodes s)"
    and "row nparts k (srt_lbs t) = row nparts k (srt_lbs s)"
    and "row nparts k (srt_ubs t) = row nparts k (srt_ubs s)"
    and "lbs t = lbs s" and "ubs t = ubs s"
proof -
  define m where "m = mcodes t"
  have ls: "length (vidx s) = nparts * K" "length (srt_lbs s) = nparts * K"
    "length (srt_ubs s) = nparts * K" "length (srt_mcodes s) = nparts * K"
    "length (mcodes s) = nparts * K"
    using len by (simp_all add: sort_lengths_def)
  have "mset (psort (\<lambda>a b. m ! (nparts * c + a) < m ! (nparts * c + b)) (row nparts c (vidx s)))
        = mset (row nparts c (vidx s))"
    using sorts_by_keyD(1) [OF srt, of "\<lambda>i. m ! (nparts * c + i)"] by simp
  then have lps: "length (psort (\<lambda>a b. m ! (nparts * c + a) < m ! (nparts * c + b)) (row nparts c (vidx s)))
        = nparts"
    using length_row [OF ls(1) c] by (metis size_mset)
  show "row nparts k (vidx t) = row nparts k (vidx s)"
    using row_sort_range_other [where psort = psort
        and cmp = "\<lambda>a b. m ! (nparts * c + a) < m ! (nparts * c + b)", OF ls(1) c k kc lps]
    by (simp add: t_def encode_sort_chunk_fields m_def)
  show "row nparts k (mcodes t) = row nparts k (mcodes s)"
    using row_store_range_other [OF ls(5) c k kc]
    by (simp add: t_def encode_sort_chunk_fields)
  show "row nparts k (srt_mcodes t) = row nparts k (srt_mcodes s)"
    using row_store_range_other [OF ls(4) c k kc]
    by (simp add: t_def encode_sort_chunk_fields isort_apply_def)
  show "row nparts k (srt_lbs t) = row nparts k (srt_lbs s)"
    using row_store_range_other [OF ls(2) c k kc]
    by (simp add: t_def encode_sort_chunk_fields isort_apply_def)
  show "row nparts k (srt_ubs t) = row nparts k (srt_ubs s)"
    using row_store_range_other [OF ls(3) c k kc]
    by (simp add: t_def encode_sort_chunk_fields isort_apply_def)
  show "lbs t = lbs s" "ubs t = ubs s"
    by (simp_all add: t_def encode_sort_chunk_fields)
qed

section \<open>Sort correctness\<close>

lemma chunk_sorted_encode_sort_chunk_other:
  assumes "sorts_by_key psort" and "sort_lengths nparts K s" and "c < K" and "k < K" and "k \<noteq> c"
    and "chunk_sorted nparts k s"
  shows "chunk_sorted nparts k (encode_sort_chunk encode psort nparts c s)"
  using assms(6)
  unfolding chunk_sorted_def rows_encode_sort_chunk_other [OF assms(1-5), of encode] .

lemma sort_lengths_fold:
  assumes "sorts_by_key psort" and "sort_lengths nparts K s" and "\<forall>c\<in>set cs. c < K"
  shows "sort_lengths nparts K (fold (encode_sort_chunk encode psort nparts) cs s)"
  using assms(2,3)
  by (induction cs arbitrary: s) (simp_all add: sort_lengths_encode_sort_chunk [OF assms(1)])

lemma chunk_sorted_fold_keep:
  assumes "sorts_by_key psort" and "sort_lengths nparts K s" and "\<forall>c\<in>set cs. c < K"
    and "k < K" and "k \<notin> set cs" and "chunk_sorted nparts k s"
  shows "chunk_sorted nparts k (fold (encode_sort_chunk encode psort nparts) cs s)"
  using assms(2,3,5,6)
proof (induction cs arbitrary: s)
  case Nil
  then show ?case by simp
next
  case (Cons c cs)
  have "chunk_sorted nparts k (encode_sort_chunk encode psort nparts c s)"
    using chunk_sorted_encode_sort_chunk_other [OF assms(1) Cons.prems(1) _ assms(4)] Cons.prems
    by simp
  moreover have "sort_lengths nparts K (encode_sort_chunk encode psort nparts c s)"
    using sort_lengths_encode_sort_chunk [OF assms(1) Cons.prems(1)] Cons.prems by simp
  ultimately show ?case using Cons.IH Cons.prems by simp
qed

lemma chunk_sorted_fold:
  assumes "sorts_by_key psort" and "sort_lengths nparts K s" and "\<forall>c\<in>set cs. c < K"
    and "distinct cs" and "k \<in> set cs"
    and "mset (row nparts k (vidx s)) = mset [0 ..< nparts]"
  shows "chunk_sorted nparts k (fold (encode_sort_chunk encode psort nparts) cs s)"
  using assms(2-6)
proof (induction cs arbitrary: s)
  case Nil
  then show ?case by simp
next
  case (Cons c cs)
  have c: "c < K" and k: "k < K" using Cons.prems by auto
  have len: "sort_lengths nparts K (encode_sort_chunk encode psort nparts c s)"
    using sort_lengths_encode_sort_chunk [OF assms(1) Cons.prems(1) c] .
  show ?case
  proof (cases "k = c")
    case True
    have "chunk_sorted nparts k (encode_sort_chunk encode psort nparts c s)"
      using chunk_sorted_encode_sort_chunk [OF assms(1) Cons.prems(1) c] Cons.prems(5) True
      by simp
    then show ?thesis
      using chunk_sorted_fold_keep [OF assms(1) len _ k] Cons.prems True by simp
  next
    case False
    have "row nparts k (vidx (encode_sort_chunk encode psort nparts c s)) = row nparts k (vidx s)"
      using rows_encode_sort_chunk_other(1) [OF assms(1) Cons.prems(1) c k False] .
    then show ?thesis
      using Cons.IH [OF len] Cons.prems False by simp
  qed
qed

lemma set_insert_by: "set (insert_by cmp x ys) = insert x (set ys)"
  by (induction ys) auto

lemma mset_insert_by: "mset (insert_by cmp x ys) = add_mset x (mset ys)"
  by (induction ys) auto

lemma sorted_insert_by:
  fixes key :: "'a \<Rightarrow> 'b::linorder"
  shows "sorted (map key ys) \<Longrightarrow> sorted (map key (insert_by (\<lambda>a b. key a < key b) x ys))"
  by (induction ys) (auto simp: set_insert_by)

lemma mset_insertion_sort: "mset (insertion_sort cmp xs) = mset xs"
  by (induction xs) (simp_all add: insertion_sort_def mset_insert_by)

lemma sorted_insertion_sort:
  fixes key :: "'a \<Rightarrow> 'b::linorder"
  shows "sorted (map key (insertion_sort (\<lambda>a b. key a < key b) xs))"
  by (induction xs) (simp_all add: insertion_sort_def sorted_insert_by)

lemma sorts_by_key_insertion_sort: "sorts_by_key insertion_sort"
  unfolding sorts_by_key_def
  by (intro allI conjI mset_insertion_sort sorted_insertion_sort)

text \<open>
  C6. Let \<open>parallel_sort\<close> sort by key, and let \<open>propagate_for\<close> end without an
  integration error. Then, for every chunk \<open>k\<close>, the sorted codes are nondecreasing,
  the sorted codes and the sorted lower and upper bounds are the unsorted ones gathered
  through \<open>vidx\<close>, and the row of \<open>vidx\<close> is a permutation of \<open>0, \<dots>, nparts - 1\<close>.
\<close>

theorem C6_sort_correctness:
  assumes "sorts_by_key psort"
    and "propagate_for outcome aabb_kernel glb0 gub0 encode psort nparts batch_size ranges s0 = Inr s"
    and "k < nchunks"
  shows "(\<forall>i. i + 1 < nparts \<longrightarrow>
            row nparts k (srt_mcodes s) ! i \<le> row nparts k (srt_mcodes s) ! (i + 1)) \<and>
         (\<forall>i<nparts. row nparts k (srt_mcodes s) ! i
                        = row nparts k (mcodes s) ! (row nparts k (vidx s) ! i)) \<and>
         (\<forall>i<nparts. row nparts k (srt_lbs s) ! i
                        = row nparts k (lbs s) ! (row nparts k (vidx s) ! i)) \<and>
         (\<forall>i<nparts. row nparts k (srt_ubs s) ! i
                        = row nparts k (ubs s) ! (row nparts k (vidx s) ! i)) \<and>
         mset (row nparts k (vidx s)) = mset [0 ..< nparts]"
proof -
  define s1 where "s1 = integrate_aabb outcome aabb_kernel glb0 gub0 nparts batch_size ranges s0"
  note d = integrate_aabb_sort_data [OF s1_def]
  have s: "s = fold (encode_sort_chunk encode psort nparts) [0 ..< nchunks] s1"
    using assms(2) d(8)
    by (simp add: propagate_for_def morton_encode_sort_def s1_def Let_def split: if_splits)
  have len1: "sort_lengths nparts nchunks s1"
    using d by (simp add: sort_lengths_def)
  have cs: "chunk_sorted nparts k s"
    unfolding s
    by (rule chunk_sorted_fold [OF assms(1) len1]) (use assms(3) d(12) in simp_all)
  have len: "sort_lengths nparts nchunks s"
    unfolding s by (rule sort_lengths_fold [OF assms(1) len1]) simp
  have lv: "length (row nparts k (vidx s)) = nparts"
    using len assms(3) by (simp add: sort_lengths_def length_row [where K = nchunks])
  have lm: "length (row nparts k (srt_mcodes s)) = nparts"
    using len assms(3) by (simp add: sort_lengths_def length_row [where K = nchunks])
  have parts: "sorted (row nparts k (srt_mcodes s))"
    "mset (row nparts k (vidx s)) = mset [0 ..< nparts]"
    "row nparts k (srt_mcodes s) = map (\<lambda>j. row nparts k (mcodes s) ! j) (row nparts k (vidx s))"
    "row nparts k (srt_lbs s) = map (\<lambda>j. row nparts k (lbs s) ! j) (row nparts k (vidx s))"
    "row nparts k (srt_ubs s) = map (\<lambda>j. row nparts k (ubs s) ! j) (row nparts k (vidx s))"
    using cs unfolding chunk_sorted_def by blast+
  have "\<forall>i. i + 1 < nparts \<longrightarrow>
          row nparts k (srt_mcodes s) ! i \<le> row nparts k (srt_mcodes s) ! (i + 1)"
    using sorted_nth_mono [OF parts(1)] lm by simp
  moreover have "\<forall>i<nparts. row nparts k (srt_mcodes s) ! i
                        = row nparts k (mcodes s) ! (row nparts k (vidx s) ! i)"
    using lv by (simp add: parts(3))
  moreover have "\<forall>i<nparts. row nparts k (srt_lbs s) ! i
                        = row nparts k (lbs s) ! (row nparts k (vidx s) ! i)"
    using lv by (simp add: parts(4))
  moreover have "\<forall>i<nparts. row nparts k (srt_ubs s) ! i
                        = row nparts k (ubs s) ! (row nparts k (vidx s) ! i)"
    using lv by (simp add: parts(5))
  ultimately show ?thesis
    using parts(2) by blast
qed

theorem C6_sort_correctness_witness:
  "sorts_by_key insertion_sort \<and>
   propagate_for (\<lambda>idx. True) demo_kernel default_lb default_ub demo_encode insertion_sort
     2 1 [(0, 2)] empty_sim_data = Inr demo_sorted \<and>
   (0::nat) < nchunks \<and>
   row 2 0 (srt_mcodes demo_sorted) = [5, 9] \<and>
   row 2 0 (mcodes demo_sorted) = [9, 5] \<and>
   row 2 0 (vidx demo_sorted) = [1, 0] \<and>
   row 2 0 (srt_mcodes demo_sorted) ! 0 \<le> row 2 0 (srt_mcodes demo_sorted) ! (0 + 1) \<and>
   mset (row 2 0 (vidx demo_sorted)) = mset [0 ..< 2]"
proof -
  have h1: "sorts_by_key insertion_sort"
    by (rule sorts_by_key_insertion_sort)
  have h2: "propagate_for (\<lambda>idx. True) demo_kernel default_lb default_ub demo_encode
              insertion_sort 2 1 [(0, 2)] empty_sim_data = Inr demo_sorted"
    by code_simp
  have h3: "(0::nat) < nchunks"
    by (simp add: nchunks_def)
  have ev: "row 2 0 (srt_mcodes demo_sorted) = [5, 9]" "row 2 0 (mcodes demo_sorted) = [9, 5]"
    "row 2 0 (vidx demo_sorted) = [1, 0]"
    by code_simp+
  show ?thesis
    using C6_sort_correctness [OF h1 h2 h3] h1 h2 h3 ev by simp
qed

section \<open>Step 1, step 3 and step 4 without indices\<close>

lemma u32_id: "n < 2 ^ 32 \<Longrightarrow> u32 n = n"
  by (simp add: u32_def)

lemma u32_sub_id: "b \<le> a \<Longrightarrow> a < 2 ^ 32 \<Longrightarrow> u32_sub a b = a - b"
proof -
  assume a: "b \<le> a" "a < 2 ^ 32"
  then have "a + 2 ^ 32 - b mod 2 ^ 32 = (a - b) + 2 ^ 32" by simp
  then have "u32_sub a b = ((a - b) + 2 ^ 32) mod 2 ^ 32"
    by (simp only: u32_sub_def)
  also have "\<dots> = (a - b) mod 2 ^ 32"
    by (simp only: mod_add_self2)
  also have "\<dots> = a - b"
    using a by (intro mod_less) simp
  finally show ?thesis .
qed

lemma upt_snoc: "[a ..< a + Suc k] = [a ..< a + k] @ [a + k]"
  by simp

lemma update_middle:
  assumes "length ys = k" and "k < length zs"
  shows "(xs @ ys @ drop k zs)[length xs + k := v] = xs @ (ys @ [v]) @ drop (Suc k) zs"
proof -
  have "drop k zs = zs ! k # drop (Suc k) zs"
    using assms(2) by (simp add: Cons_nth_drop_Suc)
  then show ?thesis
    using assms(1) by (simp add: list_update_append)
qed

lemma nth_middle:
  assumes "length ys = k" and "k < length zs"
  shows "(xs @ ys @ drop k zs) ! (length xs + k) = zs ! k"
  using assms by (simp add: nth_append)

lemma update_front:
  "length ys = k \<Longrightarrow> k < length zs \<Longrightarrow>
   (ys @ drop k zs)[k := v] = (ys @ [v]) @ drop (Suc k) zs"
  using update_middle [of ys k zs "[]" v] by simp

lemma step1_fold:
  assumes "length nc0 = n" and "length nplc0 = n" and "length level = n" and "n < 2 ^ 32"
    and "k \<le> n"
  shows "fold (step1_node mc ls us (length dn)) [length dn ..< length dn + k]
           (dn @ level, nc0, nplc0, 0)
         = (dn @ map (\<lambda>nd. fst (classify mc ls us nd)) (take k level) @ drop k level,
            map (\<lambda>nd. fst (snd (classify mc ls us nd))) (take k level) @ drop k nc0,
            map (\<lambda>nd. snd (snd (classify mc ls us nd))) (take k level) @ drop k nplc0,
            length (filter (\<lambda>nd. fst (snd (classify mc ls us nd)) = 0) (take k level)))"
  using assms(5)
proof (induction k)
  case 0
  then show ?case by simp
next
  case (Suc k)
  then have k: "k < n" by simp
  have cnt: "length (filter (\<lambda>nd. fst (snd (classify mc ls us nd)) = 0) (take k level)) + 1 < 2 ^ 32"
    using length_filter_le [of "\<lambda>nd. fst (snd (classify mc ls us nd)) = 0" "take k level"]
      k assms(3,4) by simp
  have tk: "take (Suc k) level = take k level @ [level ! k]"
    using k assms(3) by (simp add: take_Suc_conv_app_nth)
  obtain nd' nc nplc where cl: "classify mc ls us (level ! k) = (nd', nc, nplc)"
    by (cases "classify mc ls us (level ! k)") auto
  define A where "A = map (\<lambda>nd. fst (classify mc ls us nd)) (take k level)"
  define B where "B = map (\<lambda>nd. fst (snd (classify mc ls us nd))) (take k level)"
  define C where "C = map (\<lambda>nd. snd (snd (classify mc ls us nd))) (take k level)"
  define cntk where "cntk = length (filter (\<lambda>nd. fst (snd (classify mc ls us nd)) = 0) (take k level))"
  have lens: "length A = k" "length B = k" "length C = k"
    using k assms(3) by (simp_all add: A_def B_def C_def)
  have kl: "k < length level" "k < length nc0" "k < length nplc0"
    using k assms(1-3) by simp_all
  have "step1_node mc ls us (length dn) (length dn + k)
          (dn @ A @ drop k level, B @ drop k nc0, C @ drop k nplc0, cntk)
        = (dn @ (A @ [nd']) @ drop (Suc k) level, (B @ [nc]) @ drop (Suc k) nc0,
           (C @ [nplc]) @ drop (Suc k) nplc0, if nc = 0 then cntk + 1 else cntk)"
    using cnt
    by (simp only: step1_node_def prod.case nth_middle [OF lens(1) kl(1)] cl
        update_middle [OF lens(1) kl(1)] add_diff_cancel_left'
        update_front [OF lens(2) kl(2)] update_front [OF lens(3) kl(3)] cntk_def [symmetric])
       (simp add: u32_id cntk_def)
  then show ?case
    unfolding upt_snoc fold_append comp_def Suc.IH [OF less_imp_le [OF k]]
    by (simp add: A_def B_def C_def cntk_def tk cl)
qed

lemma step1_level:
  assumes "length nc0 = n" and "length nplc0 = n" and "length level = n" and "n < 2 ^ 32"
  shows "fold (step1_node mc ls us (length dn)) [length dn ..< length dn + n]
           (dn @ level, nc0, nplc0, 0)
         = (dn @ map (\<lambda>nd. fst (classify mc ls us nd)) level,
            map (\<lambda>nd. fst (snd (classify mc ls us nd))) level,
            map (\<lambda>nd. snd (snd (classify mc ls us nd))) level,
            length (filter (\<lambda>nd. fst (snd (classify mc ls us nd)) = 0) level))"
  using step1_fold [OF assms order_refl, of mc ls us dn] assms by simp

lemma length_kids: "length (kids a c) = length (kids 0 c)"
  by (cases c) (simp add: kids_def)

lemma length_kids_cases: "length (kids a c) = (if fst (snd c) = 0 then 0 else 2)"
  by (cases c) (simp add: kids_def)

lemma next_level_append:
  "next_level a (xs @ ys) = next_level a xs @ next_level (a + length xs) ys"
  by (induction xs arbitrary: a) simp_all

lemma length_next_level: "length (next_level a xs) = length (next_level 0 xs)"
proof (induction xs arbitrary: a)
  case Nil
  then show ?case by simp
next
  case (Cons c cs)
  show ?case
    using Cons.IH [of "Suc a"] Cons.IH [of "Suc 0"] length_kids [of a c] by simp
qed

lemma length_next_level_take:
  "length (next_level a (take k xs)) \<le> length (next_level a xs)"
proof -
  have "next_level a xs = next_level a (take k xs) @ next_level (a + length (take k xs)) (drop k xs)"
    using next_level_append [of a "take k xs" "drop k xs"] by simp
  then show ?thesis by (metis le_add1 length_append)
qed

lemma next_level_snoc:
  "k < length xs \<Longrightarrow>
   next_level a (take (Suc k) xs) = next_level a (take k xs) @ kids (a + k) (xs ! k)"
  by (simp add: take_Suc_conv_app_nth next_level_append)

lemma length_finalised [simp]: "length (finalised n l xs) = length xs"
  by (induction xs arbitrary: l) simp_all

lemma finalised_append:
  "finalised n l (xs @ ys)
   = finalised n l xs @ finalised n (l + length (next_level 0 xs)) ys"
proof (induction xs arbitrary: l)
  case Nil
  then show ?case by simp
next
  case (Cons c cs)
  show ?case
    using Cons.IH [of "l + length (kids 0 c)"] length_next_level [of "Suc 0" cs]
    by (simp add: add.assoc)
qed

lemma finalised_snoc:
  "k < length xs \<Longrightarrow>
   finalised n l (take (Suc k) xs)
   = finalised n l (take k xs) @ [finalise n (l + length (next_level 0 (take k xs))) (xs ! k)]"
  by (simp add: take_Suc_conv_app_nth finalised_append)

text \<open>Step 3: without wrap-around the prefix sums count the children created so far.\<close>

lemma sum_list_le: "\<forall>x\<in>set xs. x \<le> (c::nat) \<Longrightarrow> sum_list xs \<le> c * length xs"
  by (induction xs) auto

lemma scan_fold:
  assumes "length ps0 = length nc" and "\<forall>x\<in>set nc. x \<le> 2" and "2 * length nc < 2 ^ 32"
    and "k \<le> length nc"
  shows "fold (scan_node nc) [0 ..< k] (ps0, 0)
         = (map (\<lambda>j. sum_list (take (Suc j) nc)) [0 ..< k] @ drop k ps0, sum_list (take k nc))"
  using assms(4)
proof (induction k)
  case 0
  then show ?case by simp
next
  case (Suc k)
  then have k: "k < length nc" by simp
  have "\<forall>x\<in>set (take (Suc k) nc). x \<le> 2"
    using assms(2) by (meson in_set_takeD)
  then have "sum_list (take (Suc k) nc) \<le> 2 * length (take (Suc k) nc)"
    by (rule sum_list_le)
  then have bound: "sum_list (take (Suc k) nc) < 2 ^ 32"
    using assms(3) k by simp
  have tk: "sum_list (take (Suc k) nc) = sum_list (take k nc) + nc ! k"
    using k by (simp add: take_Suc_conv_app_nth)
  define A where "A = map (\<lambda>j. sum_list (take (Suc j) nc)) [0 ..< k]"
  have la: "length A = k" by (simp add: A_def)
  have kp: "k < length ps0" using k assms(1) by simp
  have "scan_node nc k (A @ drop k ps0, sum_list (take k nc))
        = ((A @ [sum_list (take (Suc k) nc)]) @ drop (Suc k) ps0, sum_list (take (Suc k) nc))"
    using bound
    by (simp add: scan_node_def Let_def update_front [OF la kp] tk [symmetric] u32_id)
  then show ?case
    using Suc.IH [OF less_imp_le [OF k]] by (simp add: A_def)
qed

lemma prefix_sum_eq:
  assumes "length ps0 = length nc" and "\<forall>x\<in>set nc. x \<le> 2" and "2 * length nc < 2 ^ 32"
  shows "prefix_sum nc ps0 = map (\<lambda>j. sum_list (take (Suc j) nc)) [0 ..< length nc]"
  using scan_fold [OF assms order_refl] assms(1) by (simp add: prefix_sum_def)

lemma sum_list_nc_next_level:
  assumes "\<forall>c\<in>set cls. fst (snd c) = 0 \<or> fst (snd c) = 2"
  shows "sum_list (map (\<lambda>c. fst (snd c)) cls) = length (next_level a cls)"
  using assms
proof (induction cls arbitrary: a)
  case Nil
  then show ?case by simp
next
  case (Cons c cs)
  then show ?case
    using Cons.IH [of "Suc a"] by (auto simp: length_kids_cases)
qed

text \<open>Step 4, one node at a time.\<close>

lemma child_of_updated [simp]:
  "left_child i (nd\<lparr>nn_level := a\<rparr>) l = left_child i nd l"
  "left_child i (nd\<lparr>left := b\<rparr>) l = left_child i nd l"
  "left_child i (nd\<lparr>right := c\<rparr>) l = left_child i nd l"
  "right_child i (nd\<lparr>nn_level := a\<rparr>) l = right_child i nd l"
  "right_child i (nd\<lparr>left := b\<rparr>) l = right_child i nd l"
  "right_child i (nd\<lparr>right := c\<rparr>) l = right_child i nd l"
  by (simp_all add: left_child_def right_child_def)

lemma nth_middle_rest:
  assumes "length ys = k" and "k < length zs"
  shows "(xs @ ys @ drop k zs @ rest) ! (length xs + k) = zs ! k"
  using assms by (simp add: nth_append)

lemma update_middle_rest:
  assumes "length ys = k" and "k < length zs"
  shows "(xs @ ys @ drop k zs @ rest)[length xs + k := v]
         = xs @ (ys @ [v]) @ drop (Suc k) zs @ rest"
proof -
  have "drop k zs = zs ! k # drop (Suc k) zs"
    using assms(2) by (simp add: Cons_nth_drop_Suc)
  then show ?thesis
    using assms(1) by (simp add: list_update_append)
qed

lemma update_fill:
  assumes "2 \<le> r"
  shows "(xs @ replicate r v)[length xs := a, length xs + 1 := b]
         = xs @ [a, b] @ replicate (r - 2) v"
proof -
  obtain r' where r: "r = Suc (Suc r')"
    using assms by (metis Suc_diff_Suc add_2_eq_Suc diff_zero le_add_diff_inverse less_Suc_eq_le not_less_eq_eq numeral_2_eq_2)
  show ?thesis
    by (simp add: r list_update_append)
qed

lemma step4_node_shape:
  assumes k: "k < length cls"
    and nc: "\<forall>c\<in>set cls. fst (snd c) = 0 \<or> fst (snd c) = 2"
    and res: "step4_node ndebug (length dn) (length cls) (length dn + length cls)
                (map (\<lambda>c. fst (snd c)) cls) (map (\<lambda>c. snd (snd c)) cls)
                (map (\<lambda>j. sum_list (take (Suc j) (map (\<lambda>c. fst (snd c)) cls))) [0 ..< length cls])
                (step4_shape indet dn cls k) (length dn + k) = Inr t'"
  shows "t' = step4_shape indet dn cls (Suc k)"
proof -
  define n where "n = length cls"
  define F where "F = finalised n (length dn + n) (take k cls)"
  define N where "N = next_level (length dn) (take k cls)"
  define total where "total = length (next_level (length dn) cls)"
  define L where "L = map fst cls"
  obtain nd c_nc c_nplc where ck: "cls ! k = (nd, c_nc, c_nplc)"
    by (cases "cls ! k") auto
  have lF: "length F = k" using k by (simp add: F_def n_def)
  have kL: "k < length L" using k by (simp add: L_def)
  have Lk: "L ! k = nd" using k ck by (simp add: L_def)
  have shape_k: "step4_shape indet dn cls k = dn @ F @ drop k L @ N @ replicate (total - length N) indet"
    by (simp add: step4_shape_def F_def N_def total_def L_def n_def)
  have cur: "step4_shape indet dn cls k ! (length dn + k) = nd"
    unfolding shape_k using nth_middle_rest [OF lF kL] Lk by simp
  have upd: "\<And>v. (step4_shape indet dn cls k)[length dn + k := v]
             = dn @ (F @ [v]) @ drop (Suc k) L @ N @ replicate (total - length N) indet"
    unfolding shape_k by (rule update_middle_rest [OF lF kL])
  have nck: "map (\<lambda>c. fst (snd c)) cls ! k = c_nc" "map (\<lambda>c. snd (snd c)) cls ! k = c_nplc"
    using k ck by simp_all
  have nc_cases: "c_nc = 0 \<or> c_nc = 2"
    using nc k ck by (metis fst_conv nth_mem snd_conv)
  have "sum_list (take (Suc k) (map (\<lambda>c. fst (snd c)) cls))
        = sum_list (map (\<lambda>c. fst (snd c)) (take (Suc k) cls))"
    by (simp add: take_map)
  also have "\<dots> = length (next_level (length dn) (take (Suc k) cls))"
    by (rule sum_list_nc_next_level) (use nc in \<open>meson in_set_takeD\<close>)
  also have "\<dots> = length N + length (kids (length dn + k) (cls ! k))"
    using k by (simp add: next_level_snoc N_def)
  finally have psk: "map (\<lambda>j. sum_list (take (Suc j) (map (\<lambda>c. fst (snd c)) cls))) [0 ..< length cls] ! k
        = length N + length (kids (length dn + k) (cls ! k))"
    using k by simp
  have fin_snoc: "finalised n (length dn + n) (take (Suc k) cls)
        = F @ [finalise n (length dn + n + length N) (cls ! k)]"
    using k finalised_snoc [of k cls n "length dn + n"] length_next_level [of "length dn" "take k cls"]
    by (simp add: F_def N_def)
  have nl_snoc: "next_level (length dn) (take (Suc k) cls) = N @ kids (length dn + k) (cls ! k)"
    using k by (simp add: next_level_snoc N_def)
  have shape_Suc: "step4_shape indet dn cls (Suc k)
        = dn @ (F @ [finalise n (length dn + n + length N) (cls ! k)]) @ drop (Suc k) L @
          (N @ kids (length dn + k) (cls ! k)) @
          replicate (total - length (N @ kids (length dn + k) (cls ! k))) indet"
    unfolding step4_shape_def n_def [symmetric] fin_snoc nl_snoc total_def L_def by simp
  show ?thesis
  proof (cases "c_nc = 0")
    case True
    have "t' = (step4_shape indet dn cls k)[length dn + k := nd\<lparr>nn_level := n\<rparr>]"
      using res True by (simp add: step4_node_def Let_def nck cur n_def split: if_splits)
    then show ?thesis
      unfolding upd shape_Suc using True by (simp add: ck kids_def finalise_def)
  next
    case False
    then have two: "c_nc = 2" using nc_cases by simp
    have lk: "length (kids (length dn + k) (cls ! k)) = 2"
      using two by (simp add: ck kids_def)
    have "length (next_level (length dn) (take (Suc k) cls)) \<le> total"
      unfolding total_def by (rule length_next_level_take)
    then have room: "2 \<le> total - length N"
      using lk by (simp add: nl_snoc)
    define P where "P = dn @ (F @ [nd\<lparr>nn_level := n, left := int (length dn + n + length N),
                                   right := int (length dn + n + length N + 1)\<rparr>]) @ drop (Suc k) L"
    have lP: "length P = length dn + n"
      using lF kL k by (simp add: P_def L_def n_def)
    have lPN: "length (P @ N) = length dn + n + length N"
      using lP by simp
    have "t' = (step4_shape indet dn cls k)
                 [length dn + k := nd\<lparr>nn_level := n, left := int (length dn + n + length N),
                                        right := int (length dn + n + length N + 1)\<rparr>,
                  length dn + n + length N := left_child (length dn + k) nd c_nplc,
                  length dn + n + length N + 1 := right_child (length dn + k) nd c_nplc]"
      using res two
      by (simp add: step4_node_def Let_def nck cur psk lk n_def split: if_splits)
    also have "\<dots> = ((P @ N) @ replicate (total - length N) indet)
                 [length (P @ N) := left_child (length dn + k) nd c_nplc,
                  length (P @ N) + 1 := right_child (length dn + k) nd c_nplc]"
      unfolding upd lPN by (simp only: P_def append_assoc)
    also have "\<dots> = (P @ N) @ [left_child (length dn + k) nd c_nplc,
                                right_child (length dn + k) nd c_nplc] @
                       replicate (total - length N - 2) indet"
      by (rule update_fill [OF room])
    finally show ?thesis
      unfolding shape_Suc using two by (simp add: ck kids_def finalise_def P_def)
  qed
qed

lemma step4_loop_shape:
  assumes nc: "\<forall>c\<in>set cls. fst (snd c) = 0 \<or> fst (snd c) = 2"
    and "k \<le> length cls"
    and "step4_loop ndebug (length dn) (length cls) (length dn + length cls)
           (map (\<lambda>c. fst (snd c)) cls) (map (\<lambda>c. snd (snd c)) cls)
           (map (\<lambda>j. sum_list (take (Suc j) (map (\<lambda>c. fst (snd c)) cls))) [0 ..< length cls])
           [length dn + k ..< length dn + length cls] (step4_shape indet dn cls k) = Inr t'"
  shows "t' = step4_shape indet dn cls (length cls)"
  using assms(2,3)
proof (induction "length cls - k" arbitrary: k)
  case 0
  then have "k = length cls" by simp
  then show ?case using "0.prems"(2) by simp
next
  case (Suc d)
  then have k: "k < length cls" by simp
  have upt: "[length dn + k ..< length dn + length cls]
             = (length dn + k) # [length dn + Suc k ..< length dn + length cls]"
    using k by (simp add: upt_conv_Cons)
  obtain t1 where t1: "step4_node ndebug (length dn) (length cls) (length dn + length cls)
           (map (\<lambda>c. fst (snd c)) cls) (map (\<lambda>c. snd (snd c)) cls)
           (map (\<lambda>j. sum_list (take (Suc j) (map (\<lambda>c. fst (snd c)) cls))) [0 ..< length cls])
           (step4_shape indet dn cls k) (length dn + k) = Inr t1"
    and rest: "step4_loop ndebug (length dn) (length cls) (length dn + length cls)
           (map (\<lambda>c. fst (snd c)) cls) (map (\<lambda>c. snd (snd c)) cls)
           (map (\<lambda>j. sum_list (take (Suc j) (map (\<lambda>c. fst (snd c)) cls))) [0 ..< length cls])
           [length dn + Suc k ..< length dn + length cls] t1 = Inr t'"
    using Suc.prems(2) unfolding upt by (auto split: sum.splits)
  have "t1 = step4_shape indet dn cls (Suc k)"
    by (rule step4_node_shape [OF k nc t1])
  then show ?case
    using Suc.hyps(1) [of "Suc k"] Suc.hyps(2) k rest by simp
qed

lemma step4_shape_0:
  "step4_shape indet dn cls 0
   = (dn @ map fst cls) @ replicate (length (next_level (length dn) cls)) indet"
  by (simp add: step4_shape_def)

lemma step4_shape_all:
  "step4_shape indet dn cls (length cls)
   = dn @ finalised (length cls) (length dn + length cls) cls @ next_level (length dn) cls"
  by (simp add: step4_shape_def)

lemma classify_nc: "fst (snd (classify mc ls us nd)) = 0 \<or> fst (snd (classify mc ls us nd)) = 2"
  by (simp add: classify_def Let_def split: prod.splits)

lemma length_next_level_filter:
  assumes "\<forall>c\<in>set cls. fst (snd c) = 0 \<or> fst (snd c) = 2"
  shows "length (next_level a cls) + 2 * length (filter (\<lambda>c. fst (snd c) = 0) cls)
         = 2 * length cls"
  using assms
proof (induction cls arbitrary: a)
  case Nil
  then show ?case by simp
next
  case (Cons c cs)
  show ?case
    using Cons.IH [of "Suc a"] Cons.prems by (auto simp: length_kids_cases)
qed

text \<open>
  One iteration of the construction loop: the nodes of the level are classified and
  finalised, and their children are appended in order.
\<close>

lemma level_step_result:
  assumes t: "tree st = dn @ level" and n: "length level = cur_n_nodes st"
    and res: "level_step ndebug indet mc ls us st = Inr st'"
  shows "tree st' = dn @ finalised (length level) (length dn + length level)
                          (map (classify mc ls us) level)
                     @ next_level (length dn) (map (classify mc ls us) level)"
    and "cur_n_nodes st' = length (next_level (length dn) (map (classify mc ls us) level))"
    and "n_levels st' = u32 (n_levels st + 1)"
    and "2 * length level < 2 ^ 32"
proof -
  define cls where "cls = map (classify mc ls us) level"
  define total where "total = length (next_level (length dn) cls)"
  have lcls: "length cls = length level" by (simp add: cls_def)
  have nov: "\<not> UINT32_MAX div 2 < cur_n_nodes st"
    using res by (auto simp: level_step_def Let_def split: if_splits)
  then have small: "2 * length level < 2 ^ 32"
    using n by (simp add: UINT32_MAX_def)
  show "2 * length level < 2 ^ 32" by (rule small)
  have nc: "\<forall>c\<in>set cls. fst (snd c) = 0 \<or> fst (snd c) = 2"
    by (auto simp: cls_def classify_nc)
  have sz: "length (tree st) = length dn + length level"
    by (simp add: t)
  have nb: "length (tree st) - cur_n_nodes st = length dn"
    using n by (simp add: t)
  have maps: "map (\<lambda>nd. fst (classify mc ls us nd)) level = map fst cls"
    "map (\<lambda>nd. fst (snd (classify mc ls us nd))) level = map (\<lambda>c. fst (snd c)) cls"
    "map (\<lambda>nd. snd (snd (classify mc ls us nd))) level = map (\<lambda>c. snd (snd c)) cls"
    "length (filter (\<lambda>nd. fst (snd (classify mc ls us nd)) = 0) level)
       = length (filter (\<lambda>c. fst (snd c) = 0) cls)"
    by (simp_all add: cls_def comp_def filter_map)
  have s1: "fold (step1_node mc ls us (length dn)) [length dn ..< length dn + length level]
              (dn @ level, resize (length level) 0 (nc_buf st), resize (length level) 0 (nplc_buf st), 0)
            = (dn @ map fst cls, map (\<lambda>c. fst (snd c)) cls, map (\<lambda>c. snd (snd c)) cls,
               length (filter (\<lambda>c. fst (snd c) = 0) cls))"
    using step1_level [of "resize (length level) 0 (nc_buf st)" "length level"
        "resize (length level) 0 (nplc_buf st)" level mc ls us dn] small
    by (simp add: maps)
  define nleaf where "nleaf = length (filter (\<lambda>c. fst (snd c) = 0) cls)"
  have cnt: "total + 2 * nleaf = 2 * length level"
    using length_next_level_filter [OF nc, of "length dn"] by (simp add: total_def nleaf_def lcls)
  have nn: "u32_sub (u32 (length level * 2)) (u32 (nleaf * 2)) = total"
  proof -
    have "nleaf * 2 \<le> length level * 2" using cnt by simp
    moreover have "length level * 2 < 2 ^ 32" using small by (simp add: mult.commute)
    ultimately have "u32_sub (u32 (length level * 2)) (u32 (nleaf * 2)) = length level * 2 - nleaf * 2"
      by (simp add: u32_id u32_sub_id)
    then show ?thesis using cnt by simp
  qed
  have ps: "prefix_sum (map (\<lambda>c. fst (snd c)) cls) (resize (length level) 0 (ps_buf st))
            = map (\<lambda>j. sum_list (take (Suc j) (map (\<lambda>c. fst (snd c)) cls))) [0 ..< length cls]"
  proof -
    have "\<forall>x\<in>set (map (\<lambda>c. fst (snd c)) cls). x \<le> 2"
      using nc by auto
    then show ?thesis
      using prefix_sum_eq [of "resize (length level) 0 (ps_buf st)" "map (\<lambda>c. fst (snd c)) cls"]
        small
      by (simp add: lcls)
  qed
  have rs: "resize (length dn + length level + total) indet (dn @ map fst cls)
            = step4_shape indet dn cls 0"
    by (simp add: resize_def step4_shape_0 total_def lcls)
  obtain tree4 where
    l4: "step4_loop ndebug (length dn) (length cls) (length dn + length cls)
           (map (\<lambda>c. fst (snd c)) cls) (map (\<lambda>c. snd (snd c)) cls)
           (map (\<lambda>j. sum_list (take (Suc j) (map (\<lambda>c. fst (snd c)) cls))) [0 ..< length cls])
           [length dn + 0 ..< length dn + length cls] (step4_shape indet dn cls 0) = Inr tree4"
    and st': "st' = \<lparr>tree = tree4, nc_buf = map (\<lambda>c. fst (snd c)) cls,
                     ps_buf = map (\<lambda>j. sum_list (take (Suc j) (map (\<lambda>c. fst (snd c)) cls))) [0 ..< length cls],
                     nplc_buf = map (\<lambda>c. snd (snd c)) cls,
                     cur_n_nodes = total, n_levels = u32 (n_levels st + 1)\<rparr>"
    using res nov
    unfolding level_step_def Let_def
    unfolding nb
    unfolding sz
    unfolding n [symmetric] t
    unfolding s1 prod.case nleaf_def [symmetric]
    by (simp add: nn ps rs lcls split: if_splits sum.splits)
  have "tree4 = step4_shape indet dn cls (length cls)"
    by (rule step4_loop_shape [OF nc _ l4]) simp
  then have "tree4 = dn @ finalised (length cls) (length dn + length cls) cls
                     @ next_level (length dn) cls"
    by (simp only: step4_shape_all)
  then show "tree st' = dn @ finalised (length level) (length dn + length level)
                          (map (classify mc ls us) level)
                     @ next_level (length dn) (map (classify mc ls us) level)"
    by (simp add: st' lcls cls_def)
  show "cur_n_nodes st' = length (next_level (length dn) (map (classify mc ls us) level))"
    by (simp add: st' total_def cls_def)
  show "n_levels st' = u32 (n_levels st + 1)"
    by (simp add: st')
qed

section \<open>Classification of a node\<close>

lemma split_search_range:
  "b \<le> e \<Longrightarrow> b \<le> split_search mc b e s \<and> split_search mc b e s \<le> e"
  using lower_bound_range [of b "\<lambda>i. (mc ! i AND split_mask s) < 1" "e - b"]
  by (simp add: split_search_def)

lemma find_split_mono: "s \<le> fst (snd (find_split mc b e s sp))"
proof (induction mc b e s sp rule: find_split.induct)
  case (1 mc b e s sp)
  show ?case
  proof (cases "(sp = b \<or> sp = e) \<and> \<not> 63 \<le> s")
    case True
    then have "find_split mc b e s sp = find_split mc b e (s + 1) (split_search mc b e (s + 1))"
      by (subst find_split.simps) auto
    then show ?thesis using "1.IH" True by auto
  next
    case False
    then show ?thesis by (subst find_split.simps) auto
  qed
qed

lemma find_split_internal:
  assumes "find_split mc b e s sp = (False, s', sp')" and "b \<le> e" and "b \<le> sp" and "sp \<le> e"
    and "s \<le> 63"
  shows "b < sp' \<and> sp' < e \<and> s' \<le> 63"
  using assms
proof (induction mc b e s sp rule: find_split.induct)
  case (1 mc b e s sp)
  show ?case
  proof (cases "sp = b \<or> sp = e")
    case True
    then have s: "\<not> 63 \<le> s"
      using "1.prems"(1) by (subst (asm) find_split.simps) (auto split: if_splits)
    then have "find_split mc b e (s + 1) (split_search mc b e (s + 1)) = (False, s', sp')"
      using "1.prems"(1) True by (subst (asm) find_split.simps) auto
    then show ?thesis
      using "1.IH" [OF True s] split_search_range [OF "1.prems"(2)] "1.prems"(2) s by simp
  next
    case False
    then have "s' = s" "sp' = sp"
      using "1.prems"(1) by (subst (asm) find_split.simps, simp)+
    then show ?thesis using False "1.prems" by simp
  qed
qed

lemma leaf_aabb_fields:
  "nbegin (leaf_aabb ls us nd) = nbegin nd \<and> nend (leaf_aabb ls us nd) = nend nd \<and>
   parent (leaf_aabb ls us nd) = parent nd \<and> left (leaf_aabb ls us nd) = left nd \<and>
   right (leaf_aabb ls us nd) = right nd \<and> nn_level (leaf_aabb ls us nd) = nn_level nd \<and>
   split_idx (leaf_aabb ls us nd) = split_idx nd"
  unfolding leaf_aabb_def
  by (rule fold_preserves
        [where P = "\<lambda>n. nbegin n = nbegin nd \<and> nend n = nend nd \<and> parent n = parent nd \<and>
                         left n = left nd \<and> right n = right nd \<and> nn_level n = nn_level nd \<and>
                         split_idx n = split_idx nd"])
     simp_all

lemma classify_fields:
  assumes "classify mc ls us nd = (nd', nc, nplc)"
  shows "nbegin nd' = nbegin nd" and "nend nd' = nend nd" and "parent nd' = parent nd"
    and "left nd' = left nd" and "right nd' = right nd" and "nn_level nd' = nn_level nd"
    and "split_idx nd \<le> split_idx nd'"
proof -
  obtain il s sp where tr:
    "(if 1 < u32_sub (nend nd) (nbegin nd) \<and> split_idx nd \<le> 63
      then find_split mc (nbegin nd) (nend nd) (split_idx nd)
             (split_search mc (nbegin nd) (nend nd) (split_idx nd))
      else (True, split_idx nd, 0)) = (il, s, sp)"
    by (metis prod_cases3)
  have s: "split_idx nd \<le> s"
    using tr find_split_mono [of "split_idx nd" mc "nbegin nd" "nend nd"
        "split_search mc (nbegin nd) (nend nd) (split_idx nd)"]
    by (auto split: if_splits)
  have nd': "nd' = (if il then leaf_aabb ls us (nd\<lparr>split_idx := s\<rparr>) else nd\<lparr>split_idx := s\<rparr>)"
    using assms unfolding classify_def Let_def tr by (simp split: if_splits)
  show "nbegin nd' = nbegin nd" "nend nd' = nend nd" "parent nd' = parent nd"
    "left nd' = left nd" "right nd' = right nd" "nn_level nd' = nn_level nd"
    "split_idx nd \<le> split_idx nd'"
    using s by (simp_all add: nd' leaf_aabb_fields)
qed

lemma classify_internal:
  assumes "classify mc ls us nd = (nd', nc, nplc)" and "nc \<noteq> 0" and "nbegin nd \<le> nend nd"
  shows "0 < nplc" and "nbegin nd + nplc < nend nd" and "split_idx nd' \<le> 63"
proof -
  obtain il s sp where tr:
    "(if 1 < u32_sub (nend nd) (nbegin nd) \<and> split_idx nd \<le> 63
      then find_split mc (nbegin nd) (nend nd) (split_idx nd)
             (split_search mc (nbegin nd) (nend nd) (split_idx nd))
      else (True, split_idx nd, 0)) = (il, s, sp)"
    by (metis prod_cases3)
  have res: "\<not> il" "nd' = nd\<lparr>split_idx := s\<rparr>" "nplc = sp - nbegin nd"
    using assms(1,2) unfolding classify_def Let_def tr by (auto split: if_splits)
  then have guard: "split_idx nd \<le> 63"
    and fs: "find_split mc (nbegin nd) (nend nd) (split_idx nd)
               (split_search mc (nbegin nd) (nend nd) (split_idx nd)) = (False, s, sp)"
    using tr by (auto split: if_splits)
  have "nbegin nd < sp \<and> sp < nend nd \<and> s \<le> 63"
    using find_split_internal [OF fs assms(3) _ _ guard] split_search_range [OF assms(3)]
    by simp
  then show "0 < nplc" "nbegin nd + nplc < nend nd" "split_idx nd' \<le> 63"
    using res by simp_all
qed

lemma classify_leaf_split:
  assumes "classify mc ls us nd = (nd', nc, nplc)" and "63 < split_idx nd"
  shows "nc = 0"
  using assms by (simp add: classify_def Let_def)

section \<open>The nodes after one level\<close>

lemma nth_finalised:
  assumes "j < length cls"
  shows "finalised n l cls ! j = finalise n (l + length (next_level 0 (take j cls))) (cls ! j)"
proof -
  have "finalised n l (take (Suc j) cls) ! j
        = finalise n (l + length (next_level 0 (take j cls))) (cls ! j)"
    using assms by (simp add: finalised_snoc nth_append)
  moreover have "finalised n l cls
        = finalised n l (take (Suc j) cls)
          @ finalised n (l + length (next_level 0 (take (Suc j) cls))) (drop (Suc j) cls)"
    using finalised_append [of n l "take (Suc j) cls" "drop (Suc j) cls"] by simp
  ultimately show ?thesis
    using assms by (simp add: nth_append)
qed

lemma next_level_split:
  assumes "j < length cls"
  shows "next_level a cls
         = next_level a (take j cls) @ kids (a + j) (cls ! j) @ next_level (a + Suc j) (drop (Suc j) cls)"
proof -
  have "cls = take j cls @ cls ! j # drop (Suc j) cls"
    using assms by (simp add: id_take_nth_drop)
  then have "next_level a cls = next_level a (take j cls @ cls ! j # drop (Suc j) cls)"
    by simp
  then show ?thesis
    using assms by (simp add: next_level_append del: append_take_drop_id)
qed

lemma next_level_children:
  assumes "j < length cls" and "cls ! j = (nd, nc, nplc)" and "nc \<noteq> 0"
  shows "length (next_level a (take j cls)) + 1 < length (next_level a cls)"
    and "next_level a cls ! length (next_level a (take j cls)) = left_child (a + j) nd nplc"
    and "next_level a cls ! (length (next_level a (take j cls)) + 1) = right_child (a + j) nd nplc"
proof -
  define A where "A = next_level a (take j cls)"
  define B where "B = next_level (a + Suc j) (drop (Suc j) cls)"
  have eq: "next_level a cls = A @ [left_child (a + j) nd nplc, right_child (a + j) nd nplc] @ B"
    using next_level_split [OF assms(1), of a] assms(2,3) by (simp add: kids_def A_def B_def)
  show "length (next_level a (take j cls)) + 1 < length (next_level a cls)"
    "next_level a cls ! length (next_level a (take j cls)) = left_child (a + j) nd nplc"
    "next_level a cls ! (length (next_level a (take j cls)) + 1) = right_child (a + j) nd nplc"
    unfolding eq A_def [symmetric] by (simp_all add: nth_append)
qed

lemma next_level_elems:
  assumes "x \<in> set (next_level a cls)"
  shows "\<exists>j nd nc nplc. j < length cls \<and> cls ! j = (nd, nc, nplc) \<and> nc \<noteq> 0 \<and>
           (x = left_child (a + j) nd nplc \<or> x = right_child (a + j) nd nplc)"
  using assms
proof (induction cls arbitrary: a)
  case Nil
  then show ?case by simp
next
  case (Cons c cs)
  obtain nd nc nplc where c: "c = (nd, nc, nplc)" by (cases c) auto
  show ?case
  proof (cases "x \<in> set (kids a c)")
    case True
    then have "nc \<noteq> 0 \<and> (x = left_child (a + 0) nd nplc \<or> x = right_child (a + 0) nd nplc)"
      by (auto simp: c kids_def split: if_splits)
    then show ?thesis
      using c by (intro exI [of _ 0]) auto
  next
    case False
    then have "x \<in> set (next_level (Suc a) cs)" using Cons.prems by simp
    then obtain j nd' nc' nplc' where
      "j < length cs" "cs ! j = (nd', nc', nplc')" "nc' \<noteq> 0"
      "x = left_child (Suc a + j) nd' nplc' \<or> x = right_child (Suc a + j) nd' nplc'"
      using Cons.IH by blast
    then show ?thesis
      by (intro exI [of _ "Suc j"]) auto
  qed
qed

text \<open>The three parts of the tree after an iteration.\<close>

lemma nth_three_parts:
  assumes "length F = n"
  shows "i < length dn \<Longrightarrow> (dn @ F @ K) ! i = dn ! i"
    and "length dn \<le> i \<Longrightarrow> i < length dn + n \<Longrightarrow> (dn @ F @ K) ! i = F ! (i - length dn)"
    and "length dn + n \<le> i \<Longrightarrow> (dn @ F @ K) ! i = K ! (i - (length dn + n))"
  using assms by (auto simp: nth_append)

lemma finalise_fields:
  assumes "c = (nd, nc, nplc)"
  shows "nbegin (finalise n l c) = nbegin nd" and "nend (finalise n l c) = nend nd"
    and "parent (finalise n l c) = parent nd" and "split_idx (finalise n l c) = split_idx nd"
    and "nn_level (finalise n l c) = n"
    and "left (finalise n l c) = (if nc = 0 then left nd else int l)"
    and "right (finalise n l c) = (if nc = 0 then right nd else int (l + 1))"
  by (simp_all add: assms finalise_def)

text \<open>
  The nodes of the tree after an iteration, by index: the nodes of the earlier levels
  are unchanged, the nodes of the level are finalised, and every new node is a child of
  an internal node of the level.
\<close>

lemma level_step_nodes:
  assumes le: "cur_n_nodes st \<le> length (tree st)"
    and res: "level_step ndebug indet mc ls us st = Inr st'"
  shows "length (tree st') - cur_n_nodes st' = length (tree st)"
    and "cur_n_nodes st' \<le> length (tree st')"
    and "n_levels st' = u32 (n_levels st + 1)"
    and "\<And>i. i < length (tree st) - cur_n_nodes st \<Longrightarrow> tree st' ! i = tree st ! i"
    and "\<And>i. length (tree st) - cur_n_nodes st \<le> i \<Longrightarrow> i < length (tree st) \<Longrightarrow>
           \<exists>nd' nc nplc p.
             classify mc ls us (tree st ! i) = (nd', nc, nplc) \<and>
             tree st' ! i = finalise (cur_n_nodes st) (length (tree st) + p) (nd', nc, nplc) \<and>
             (nc \<noteq> 0 \<longrightarrow>
                length (tree st) + p + 1 < length (tree st') \<and>
                tree st' ! (length (tree st) + p) = left_child i nd' nplc \<and>
                tree st' ! (length (tree st) + p + 1) = right_child i nd' nplc)"
    and "\<And>i. length (tree st) \<le> i \<Longrightarrow> i < length (tree st') \<Longrightarrow>
           \<exists>j nd' nc nplc.
             length (tree st) - cur_n_nodes st \<le> j \<and> j < length (tree st) \<and>
             classify mc ls us (tree st ! j) = (nd', nc, nplc) \<and> nc \<noteq> 0 \<and>
             (tree st' ! i = left_child j nd' nplc \<or> tree st' ! i = right_child j nd' nplc)"
proof -
  define n where "n = cur_n_nodes st"
  define nb where "nb = length (tree st) - n"
  define dn where "dn = take nb (tree st)"
  define level where "level = drop nb (tree st)"
  define cls where "cls = map (classify mc ls us) level"
  define F where "F = finalised (length level) (length dn + length level) cls"
  define K where "K = next_level (length dn) cls"
  have t: "tree st = dn @ level" by (simp add: dn_def level_def)
  have ll: "length level = n" using le by (simp add: level_def nb_def n_def)
  have ld: "length dn = nb" by (simp add: dn_def nb_def)
  have sz: "length (tree st) = nb + n" using le by (simp add: nb_def n_def)
  have n_eq: "cur_n_nodes st = n" by (simp add: n_def)
  note r = level_step_result [OF t ll [unfolded n_def] res]
  have t': "tree st' = dn @ F @ K" and n': "cur_n_nodes st' = length K"
    using r(1,2) by (simp_all add: F_def K_def cls_def)
  have lF: "length F = n" by (simp add: F_def cls_def ll)
  have lt': "length (tree st') = nb + n + length K" by (simp add: t' lF ld)
  have lcls: "length cls = n" by (simp add: cls_def ll)
  have lev: "\<And>j. j < n \<Longrightarrow> level ! j = tree st ! (nb + j)"
    using sz by (simp add: level_def)
  have clsj: "\<And>j. j < n \<Longrightarrow> cls ! j = classify mc ls us (tree st ! (nb + j))"
    using lev ll by (simp add: cls_def)
  show "length (tree st') - cur_n_nodes st' = length (tree st)"
    by (simp add: lt' n' sz)
  show "cur_n_nodes st' \<le> length (tree st')"
    by (simp add: lt' n')
  show "n_levels st' = u32 (n_levels st + 1)"
    by (rule r(3))
  show "\<And>i. i < length (tree st) - cur_n_nodes st \<Longrightarrow> tree st' ! i = tree st ! i"
  proof -
    fix i assume "i < length (tree st) - cur_n_nodes st"
    then have "i < length dn" by (simp add: ld sz n_eq)
    then show "tree st' ! i = tree st ! i"
      by (simp add: t t' nth_append)
  qed
  show "\<And>i. length (tree st) - cur_n_nodes st \<le> i \<Longrightarrow> i < length (tree st) \<Longrightarrow>
           \<exists>nd' nc nplc p.
             classify mc ls us (tree st ! i) = (nd', nc, nplc) \<and>
             tree st' ! i = finalise (cur_n_nodes st) (length (tree st) + p) (nd', nc, nplc) \<and>
             (nc \<noteq> 0 \<longrightarrow>
                length (tree st) + p + 1 < length (tree st') \<and>
                tree st' ! (length (tree st) + p) = left_child i nd' nplc \<and>
                tree st' ! (length (tree st) + p + 1) = right_child i nd' nplc)"
  proof -
    fix i assume "length (tree st) - cur_n_nodes st \<le> i" and "i < length (tree st)"
    then have i: "nb \<le> i" "i < nb + n" by (simp_all add: sz n_eq)
    define j where "j = i - nb"
    have j: "j < n" "i = nb + j" using i by (simp_all add: j_def)
    obtain nd' nc nplc where cl: "classify mc ls us (tree st ! i) = (nd', nc, nplc)"
      by (metis prod_cases3)
    then have cj: "cls ! j = (nd', nc, nplc)"
      using clsj [OF j(1)] j(2) by simp
    define p where "p = length (next_level (length dn) (take j cls))"
    have p0: "length (next_level 0 (take j cls)) = p"
      using length_next_level [of "length dn" "take j cls"] by (simp add: p_def)
    have "tree st' ! i = F ! j"
      unfolding t' using nth_three_parts(2) [OF lF, of dn i K] i by (simp add: ld j_def)
    also have "\<dots> = finalise n (nb + n + p) (nd', nc, nplc)"
      using nth_finalised [of j cls "length level" "length dn + length level"] j(1) lcls
      by (simp add: F_def cj p0 ll ld)
    finally have fin: "tree st' ! i = finalise (cur_n_nodes st) (length (tree st) + p) (nd', nc, nplc)"
      by (simp add: n_eq sz)
    have kid: "nc \<noteq> 0 \<longrightarrow>
                length (tree st) + p + 1 < length (tree st') \<and>
                tree st' ! (length (tree st) + p) = left_child i nd' nplc \<and>
                tree st' ! (length (tree st) + p + 1) = right_child i nd' nplc"
    proof
      assume nz: "nc \<noteq> 0"
      have jl: "j < length cls" using j(1) lcls by simp
      note ch = next_level_children [OF jl cj nz, of "length dn", folded p_def K_def]
      have "tree st' ! (nb + n + p) = K ! p"
        unfolding t' using nth_three_parts(3) [OF lF, of dn "nb + n + p" K] by (simp add: ld)
      moreover have "tree st' ! (nb + n + p + 1) = K ! (p + 1)"
        unfolding t' using nth_three_parts(3) [OF lF, of dn "nb + n + p + 1" K] by (simp add: ld)
      ultimately show "length (tree st) + p + 1 < length (tree st') \<and>
                tree st' ! (length (tree st) + p) = left_child i nd' nplc \<and>
                tree st' ! (length (tree st) + p + 1) = right_child i nd' nplc"
        using ch by (simp add: sz lt' ld j(2))
    qed
    show "\<exists>nd' nc nplc p.
             classify mc ls us (tree st ! i) = (nd', nc, nplc) \<and>
             tree st' ! i = finalise (cur_n_nodes st) (length (tree st) + p) (nd', nc, nplc) \<and>
             (nc \<noteq> 0 \<longrightarrow>
                length (tree st) + p + 1 < length (tree st') \<and>
                tree st' ! (length (tree st) + p) = left_child i nd' nplc \<and>
                tree st' ! (length (tree st) + p + 1) = right_child i nd' nplc)"
      using cl fin kid by blast
  qed
  show "\<And>i. length (tree st) \<le> i \<Longrightarrow> i < length (tree st') \<Longrightarrow>
           \<exists>j nd' nc nplc.
             length (tree st) - cur_n_nodes st \<le> j \<and> j < length (tree st) \<and>
             classify mc ls us (tree st ! j) = (nd', nc, nplc) \<and> nc \<noteq> 0 \<and>
             (tree st' ! i = left_child j nd' nplc \<or> tree st' ! i = right_child j nd' nplc)"
  proof -
    fix i assume "length (tree st) \<le> i" and "i < length (tree st')"
    then have i: "nb + n \<le> i" "i - (nb + n) < length K" by (simp_all add: sz lt')
    have "tree st' ! i = K ! (i - (nb + n))"
      unfolding t' using nth_three_parts(3) [OF lF, of dn i K] i(1) by (simp add: ld)
    then have "tree st' ! i \<in> set K" using i(2) by simp
    then obtain j nd' nc nplc where
      j: "j < length cls" "cls ! j = (nd', nc, nplc)" "nc \<noteq> 0"
        "tree st' ! i = left_child (length dn + j) nd' nplc \<or>
         tree st' ! i = right_child (length dn + j) nd' nplc"
      using next_level_elems [of "tree st' ! i" "length dn" cls] unfolding K_def by blast
    have "classify mc ls us (tree st ! (nb + j)) = (nd', nc, nplc)"
      using clsj [of j] j(1,2) lcls by simp
    then show "\<exists>j nd' nc nplc.
             length (tree st) - cur_n_nodes st \<le> j \<and> j < length (tree st) \<and>
             classify mc ls us (tree st ! j) = (nd', nc, nplc) \<and> nc \<noteq> 0 \<and>
             (tree st' ! i = left_child j nd' nplc \<or> tree st' ! i = right_child j nd' nplc)"
      using j lcls by (intro exI [of _ "nb + j"]) (auto simp: sz ld n_eq)
  qed
qed

section \<open>Termination of the construction loop\<close>

lemma find_split_bound:
  assumes "find_split mc b e s sp = (False, s', sp')" and "s \<le> 63"
  shows "s' \<le> 63"
  using assms
proof (induction mc b e s sp rule: find_split.induct)
  case (1 mc b e s sp)
  show ?case
  proof (cases "sp = b \<or> sp = e")
    case True
    then have s: "\<not> 63 \<le> s"
      using "1.prems"(1) by (subst (asm) find_split.simps) (auto split: if_splits)
    then have "find_split mc b e (s + 1) (split_search mc b e (s + 1)) = (False, s', sp')"
      using "1.prems"(1) True by (subst (asm) find_split.simps) auto
    then show ?thesis
      using "1.IH" [OF True s] s by simp
  next
    case False
    then have "s' = s"
      using "1.prems"(1) by (subst (asm) find_split.simps) simp
    then show ?thesis using "1.prems"(2) by simp
  qed
qed

lemma classify_internal_split:
  assumes "classify mc ls us nd = (nd', nc, nplc)" and "nc \<noteq> 0"
  shows "split_idx nd' \<le> 63"
proof -
  obtain il s sp where tr:
    "(if 1 < u32_sub (nend nd) (nbegin nd) \<and> split_idx nd \<le> 63
      then find_split mc (nbegin nd) (nend nd) (split_idx nd)
             (split_search mc (nbegin nd) (nend nd) (split_idx nd))
      else (True, split_idx nd, 0)) = (il, s, sp)"
    by (metis prod_cases3)
  have res: "\<not> il" "nd' = nd\<lparr>split_idx := s\<rparr>"
    using assms unfolding classify_def Let_def tr by (auto split: if_splits)
  then have guard: "split_idx nd \<le> 63"
    and fs: "find_split mc (nbegin nd) (nend nd) (split_idx nd)
               (split_search mc (nbegin nd) (nend nd) (split_idx nd)) = (False, s, sp)"
    using tr by (auto split: if_splits)
  show ?thesis
    using find_split_bound [OF fs guard] res by simp
qed

lemma inv_levels_level_step:
  assumes inv: "inv_levels st" and ne: "cur_n_nodes st \<noteq> 0"
    and res: "level_step ndebug indet mc ls us st = Inr st'"
  shows "inv_levels st'" and "n_levels st' = n_levels st + 1"
proof -
  have le: "cur_n_nodes st \<le> length (tree st)" and n64: "n_levels st \<le> 64"
    and lv: "\<And>i. i < length (tree st) \<Longrightarrow> length (tree st) - cur_n_nodes st \<le> i \<Longrightarrow>
                 n_levels st \<le> split_idx (tree st ! i)"
    using inv ne by (simp_all add: inv_levels_def)
  note r = level_step_nodes [OF le res]
  show nl: "n_levels st' = n_levels st + 1"
    using r(3) n64 by (simp add: u32_id)
  have new: "\<And>i. i < length (tree st') \<Longrightarrow> length (tree st) \<le> i \<Longrightarrow>
               n_levels st < 64 \<and> n_levels st' \<le> split_idx (tree st' ! i)"
  proof -
    fix i assume "i < length (tree st')" and "length (tree st) \<le> i"
    then obtain j nd' nc nplc where
      j: "length (tree st) - cur_n_nodes st \<le> j" "j < length (tree st)"
        "classify mc ls us (tree st ! j) = (nd', nc, nplc)" "nc \<noteq> 0"
        "tree st' ! i = left_child j nd' nplc \<or> tree st' ! i = right_child j nd' nplc"
      using r(6) by blast
    have lo: "n_levels st \<le> split_idx (tree st ! j)" using lv j(1,2) by simp
    have nl63: "\<not> 63 < split_idx (tree st ! j)"
      using classify_leaf_split [OF j(3)] j(4) by blast
    have mono: "split_idx (tree st ! j) \<le> split_idx nd'"
      by (rule classify_fields(7) [OF j(3)])
    have hi: "split_idx nd' \<le> 63"
      by (rule classify_internal_split [OF j(3,4)])
    have "split_idx (tree st' ! i) = split_idx nd' + 1"
      using j(5) hi by (auto simp: left_child_def right_child_def u32_id)
    then show "n_levels st < 64 \<and> n_levels st' \<le> split_idx (tree st' ! i)"
      using lo mono hi nl by simp
  qed
  show "inv_levels st'"
    unfolding inv_levels_def
  proof (intro conjI allI impI)
    show "cur_n_nodes st' \<le> length (tree st')" by (rule r(2))
    show "n_levels st' \<le> 65" using nl n64 by simp
    show "n_levels st' \<le> 64" if "cur_n_nodes st' \<noteq> 0"
    proof -
      have "length (tree st) < length (tree st')" using that r(1,2) by simp
      then have "n_levels st < 64" using new [of "length (tree st)"] by simp
      then show ?thesis using nl by simp
    qed
    show "n_levels st' \<le> split_idx (tree st' ! i)"
      if "i < length (tree st')" and "length (tree st') - cur_n_nodes st' \<le> i" for i
      using new [of i] that r(1) by simp
  qed
qed
lemma step4_node_assert:
  "step4_node ndebug nb n sz nc nplc ps t i = Inl Assertion_Failed \<Longrightarrow> \<not> ndebug"
  by (auto simp: step4_node_def Let_def split: if_splits)

lemma step4_loop_assert:
  "step4_loop ndebug nb n sz nc nplc ps idxs t = Inl Assertion_Failed \<Longrightarrow> \<not> ndebug"
  by (induction idxs arbitrary: t) (auto split: sum.splits dest: step4_node_assert)

lemma level_step_assert:
  "level_step ndebug indet mc ls us st = Inl Assertion_Failed \<Longrightarrow> \<not> ndebug"
  by (auto simp: level_step_def Let_def split: if_splits prod.splits sum.splits
      dest: step4_loop_assert)

lemma build_loop_terminates:
  assumes "inv_levels st"
  shows "(\<exists>e. build_loop ndebug indet mc ls us st = Some (Inl e) \<and>
              (e = Assertion_Failed \<longrightarrow> \<not> ndebug)) \<or>
         (\<exists>st'. build_loop ndebug indet mc ls us st = Some (Inr st') \<and>
                cur_n_nodes st' = 0 \<and> n_levels st' \<le> 65)"
  using assms
proof (induction "65 - n_levels st" arbitrary: st)
  case 0
  then have z: "cur_n_nodes st = 0" "n_levels st \<le> 65"
    by (auto simp: inv_levels_def)
  then have "build_loop ndebug indet mc ls us st = Some (Inr st)"
    by (subst build_loop.simps) simp
  then show ?case using z by simp
next
  case (Suc d)
  show ?case
  proof (cases "cur_n_nodes st = 0")
    case True
    then have "build_loop ndebug indet mc ls us st = Some (Inr st)"
      by (subst build_loop.simps) simp
    moreover have "n_levels st \<le> 65" using Suc.prems by (simp add: inv_levels_def)
    ultimately show ?thesis using True by simp
  next
    case False
    show ?thesis
    proof (cases "level_step ndebug indet mc ls us st")
      case (Inl e)
      then have "build_loop ndebug indet mc ls us st = Some (Inl e)"
        using False by (subst build_loop.simps) simp
      moreover have "e = Assertion_Failed \<longrightarrow> \<not> ndebug"
        using Inl level_step_assert by blast
      ultimately show ?thesis by simp
    next
      case (Inr st1)
      have inv1: "inv_levels st1" and nl: "n_levels st1 = n_levels st + 1"
        using inv_levels_level_step [OF Suc.prems False Inr] by simp_all
      have "d = 65 - n_levels st1" using Suc.hyps(2) nl by simp
      then have "(\<exists>e. build_loop ndebug indet mc ls us st1 = Some (Inl e) \<and>
              (e = Assertion_Failed \<longrightarrow> \<not> ndebug)) \<or>
         (\<exists>st'. build_loop ndebug indet mc ls us st1 = Some (Inr st') \<and>
                cur_n_nodes st' = 0 \<and> n_levels st' \<le> 65)"
        using Suc.hyps(1) inv1 by simp
      moreover have "build_loop ndebug indet mc ls us st = build_loop ndebug indet mc ls us st1"
        using False Inr by (subst build_loop.simps) simp
      ultimately show ?thesis by simp
    qed
  qed
qed

text \<open>
  C9. From the root alone, for any number of particles and any arrays, the construction
  loop ends. In a build with \<open>NDEBUG\<close>: either an overflow is reported (one of the two
  exceptions of the source), or \<open>cur_n_nodes\<close> reaches zero after at most 65 levels. In
  a build with assertions: the same, or the program is ended by a failed assertion. A
  node with children has a split index of at most 63 and its children start one above
  it, so the nodes of the level after \<open>d\<close> iterations have a split index of at least
  \<open>d\<close>, and nodes with a split index above 63 are leaves.
\<close>

theorem C9_construction_loop_terminates:
  "((\<exists>e. build_loop True indet mc ls us
           \<lparr>tree = [root_node nparts], nc_buf = [], ps_buf = [], nplc_buf = [],
            cur_n_nodes = 1, n_levels = 0\<rparr> = Some (Inl e) \<and>
         (e = Overflow_Error \<or> e = Bad_Numeric_Cast)) \<or>
    (\<exists>st'. build_loop True indet mc ls us
           \<lparr>tree = [root_node nparts], nc_buf = [], ps_buf = [], nplc_buf = [],
            cur_n_nodes = 1, n_levels = 0\<rparr> = Some (Inr st') \<and>
          cur_n_nodes st' = 0 \<and> n_levels st' \<le> 65))
   \<and>
   ((\<exists>e. build_loop False indet mc ls us
           \<lparr>tree = [root_node nparts], nc_buf = [], ps_buf = [], nplc_buf = [],
            cur_n_nodes = 1, n_levels = 0\<rparr> = Some (Inl e)) \<or>
    (\<exists>st'. build_loop False indet mc ls us
           \<lparr>tree = [root_node nparts], nc_buf = [], ps_buf = [], nplc_buf = [],
            cur_n_nodes = 1, n_levels = 0\<rparr> = Some (Inr st') \<and>
          cur_n_nodes st' = 0 \<and> n_levels st' \<le> 65))"
proof -
  have inv: "inv_levels \<lparr>tree = [root_node nparts], nc_buf = [], ps_buf = [], nplc_buf = [],
            cur_n_nodes = 1, n_levels = 0\<rparr>"
    by (simp add: inv_levels_def)
  have err: "e = Overflow_Error \<or> e = Bad_Numeric_Cast" if "e = Assertion_Failed \<longrightarrow> \<not> True"
    for e :: error
    using that by (cases e) simp_all
  show ?thesis
    using build_loop_terminates [OF inv, of True indet mc ls us]
      build_loop_terminates [OF inv, of False indet mc ls us] err
    by blast
qed

section \<open>The range invariant\<close>

lemma inv_range_level_step:
  assumes inv: "inv_range nparts st" and np: "nparts \<le> UINT32_MAX"
    and res: "level_step ndebug indet mc ls us st = Inr st'"
  shows "inv_range nparts st'"
proof -
  have le: "cur_n_nodes st \<le> length (tree st)"
    and rng: "\<And>i. i < length (tree st) \<Longrightarrow>
                 nbegin (tree st ! i) < nend (tree st ! i) \<and> nend (tree st ! i) \<le> nparts"
    and chn: "\<And>i. i < length (tree st) - cur_n_nodes st \<Longrightarrow> left (tree st ! i) \<noteq> - 1 \<Longrightarrow>
                 children_ok (tree st) i"
    and lvl: "\<And>i. i < length (tree st) \<Longrightarrow> length (tree st) - cur_n_nodes st \<le> i \<Longrightarrow>
                 left (tree st ! i) = - 1"
    using inv by (simp_all add: inv_range_def)
  note r = level_step_nodes [OF le res]
  have len: "length (tree st) \<le> length (tree st')"
    using r(1) by simp
  have np32: "nparts < 2 ^ 32" using np by (simp add: UINT32_MAX_def)
  text \<open>The ranges of the nodes already in the tree are unchanged.\<close>
  have old: "nbegin (tree st' ! i) = nbegin (tree st ! i) \<and> nend (tree st' ! i) = nend (tree st ! i)"
    if "i < length (tree st)" for i
  proof (cases "i < length (tree st) - cur_n_nodes st")
    case True
    then show ?thesis using r(4) by simp
  next
    case False
    then have "length (tree st) - cur_n_nodes st \<le> i" by simp
    from r(5) [OF this that] obtain nd' nc nplc p where
      "classify mc ls us (tree st ! i) = (nd', nc, nplc)"
      "tree st' ! i = finalise (cur_n_nodes st) (length (tree st) + p) (nd', nc, nplc)"
      by blast
    then show ?thesis
      using classify_fields(1,2) [of mc ls us "tree st ! i" nd' nc nplc]
      by (simp add: finalise_fields [OF refl])
  qed
  text \<open>The two children of an internal node of the level.\<close>
  have kid: "nbegin (left_child j nd' nplc) = nbegin (tree st ! j) \<and>
             nend (left_child j nd' nplc) = nbegin (tree st ! j) + nplc \<and>
             nbegin (right_child j nd' nplc) = nbegin (tree st ! j) + nplc \<and>
             nend (right_child j nd' nplc) = nend (tree st ! j) \<and>
             0 < nplc \<and> nbegin (tree st ! j) + nplc < nend (tree st ! j)"
    if "j < length (tree st)" and "classify mc ls us (tree st ! j) = (nd', nc, nplc)" and "nc \<noteq> 0"
    for j nd' nc nplc
  proof -
    have b: "nbegin (tree st ! j) \<le> nend (tree st ! j)" "nend (tree st ! j) \<le> nparts"
      using rng [OF that(1)] by simp_all
    note ci = classify_internal [OF that(2,3) b(1)]
    note cf = classify_fields(1,2) [OF that(2)]
    have "nbegin (tree st ! j) + nplc < 2 ^ 32"
      using ci(2) b(2) np32 by simp
    then show ?thesis
      using ci cf by (simp add: left_child_def right_child_def u32_id)
  qed
  show ?thesis
    unfolding inv_range_def
  proof (intro conjI allI impI)
    show "cur_n_nodes st' \<le> length (tree st')" by (rule r(2))
  next
    fix i assume i: "i < length (tree st')"
    show "nbegin (tree st' ! i) < nend (tree st' ! i)" "nend (tree st' ! i) \<le> nparts"
    proof -
      have "nbegin (tree st' ! i) < nend (tree st' ! i) \<and> nend (tree st' ! i) \<le> nparts"
      proof (cases "i < length (tree st)")
        case True
        then show ?thesis using old [OF True] rng [OF True] by simp
      next
        case False
        then have "length (tree st) \<le> i" by simp
        from r(6) [OF this i] obtain j nd' nc nplc where
          j: "j < length (tree st)" "classify mc ls us (tree st ! j) = (nd', nc, nplc)" "nc \<noteq> 0"
            "tree st' ! i = left_child j nd' nplc \<or> tree st' ! i = right_child j nd' nplc"
          by blast
        show ?thesis
          using j(4) kid [OF j(1-3)] rng [OF j(1)] by auto
      qed
      then show "nbegin (tree st' ! i) < nend (tree st' ! i)" "nend (tree st' ! i) \<le> nparts"
        by simp_all
    qed
  next
    fix i assume i: "i < length (tree st') - cur_n_nodes st'"
      and int: "left (tree st' ! i) \<noteq> - 1"
    have il: "i < length (tree st)" using i r(1) by simp
    show "children_ok (tree st') i"
    proof (cases "i < length (tree st) - cur_n_nodes st")
      case True
      have same: "tree st' ! i = tree st ! i" using r(4) [OF True] .
      then have ok: "children_ok (tree st) i" using chn [OF True] int by simp
      then have lr: "nat (right (tree st ! i)) < length (tree st)"
        "nat (left (tree st ! i)) < length (tree st)"
        by (auto simp: children_ok_def)
      show ?thesis
        using ok old [OF lr(1)] old [OF lr(2)] old [OF il] len
        unfolding children_ok_def same by auto
    next
      case False
      then have "length (tree st) - cur_n_nodes st \<le> i" by simp
      from r(5) [OF this il] obtain nd' nc nplc p where
        c: "classify mc ls us (tree st ! i) = (nd', nc, nplc)"
          "tree st' ! i = finalise (cur_n_nodes st) (length (tree st) + p) (nd', nc, nplc)"
          "nc \<noteq> 0 \<longrightarrow>
             length (tree st) + p + 1 < length (tree st') \<and>
             tree st' ! (length (tree st) + p) = left_child i nd' nplc \<and>
             tree st' ! (length (tree st) + p + 1) = right_child i nd' nplc"
        by blast
      have "left nd' = - 1"
        using classify_fields(4) [OF c(1)] lvl [OF il] False by simp
      then have nz: "nc \<noteq> 0"
        using int c(2) by (cases "nc = 0") (simp_all add: finalise_fields [OF refl])
      have lft: "left (tree st' ! i) = int (length (tree st) + p)"
        "right (tree st' ! i) = int (length (tree st) + p + 1)"
        using nz c(2) by (simp_all add: finalise_fields [OF refl])
      have pos: "0 < int (length (tree st)) + int p" using il by (cases "tree st") simp_all
      show ?thesis
        unfolding children_ok_def lft
        using c(3) nz kid [OF il c(1) nz] old [OF il] pos
        by (simp add: nat_add_distrib)
    qed
  next
    fix i assume i: "i < length (tree st')" and lv: "length (tree st') - cur_n_nodes st' \<le> i"
    then have "length (tree st) \<le> i" using r(1) by simp
    from r(6) [OF this i] obtain j nd' nc nplc where
      "tree st' ! i = left_child j nd' nplc \<or> tree st' ! i = right_child j nd' nplc"
      by blast
    then show "left (tree st' ! i) = - 1"
      by (auto simp: left_child_def right_child_def)
  qed
qed

section \<open>From the loop to the completed tree\<close>

text \<open>A property that every iteration preserves holds when the loop ends.\<close>

lemma build_loop_invariant:
  assumes step: "\<And>st st'. I st \<Longrightarrow> cur_n_nodes st \<noteq> 0 \<Longrightarrow>
                   level_step ndebug indet mc ls us st = Inr st' \<Longrightarrow> I st'"
    and "inv_levels st" and "I st" and "build_loop ndebug indet mc ls us st = Some (Inr st')"
  shows "I st' \<and> cur_n_nodes st' = 0"
  using assms(2-4)
proof (induction "65 - n_levels st" arbitrary: st)
  case 0
  then have "cur_n_nodes st = 0"
    by (auto simp: inv_levels_def)
  then have "build_loop ndebug indet mc ls us st = Some (Inr st)"
    by (subst build_loop.simps) simp
  then show ?case using "0.prems" \<open>cur_n_nodes st = 0\<close> by simp
next
  case (Suc d)
  show ?case
  proof (cases "cur_n_nodes st = 0")
    case True
    then have "build_loop ndebug indet mc ls us st = Some (Inr st)"
      by (subst build_loop.simps) simp
    then show ?thesis using Suc.prems True by simp
  next
    case False
    show ?thesis
    proof (cases "level_step ndebug indet mc ls us st")
      case (Inl e)
      then have "build_loop ndebug indet mc ls us st = Some (Inl e)"
        using False by (subst build_loop.simps) simp
      then show ?thesis using Suc.prems(3) by simp
    next
      case (Inr st1)
      have inv1: "inv_levels st1" and nl: "n_levels st1 = n_levels st + 1"
        using inv_levels_level_step [OF Suc.prems(1) False Inr] by simp_all
      have d: "d = 65 - n_levels st1" using Suc.hyps(2) nl by simp
      have "build_loop ndebug indet mc ls us st = build_loop ndebug indet mc ls us st1"
        using False Inr by (subst build_loop.simps) simp
      then have "build_loop ndebug indet mc ls us st1 = Some (Inr st')"
        using Suc.prems(3) by simp
      then show ?thesis
        using Suc.hyps(1) [OF d inv1 step [OF Suc.prems(2) False Inr]] by simp
    qed
  qed
qed

text \<open>The backward pass changes the boxes only.\<close>

lemma same_shape_refl: "same_shape t t"
  by (simp add: same_shape_def)

lemma same_shape_trans: "same_shape a b \<Longrightarrow> same_shape b c \<Longrightarrow> same_shape a c"
  by (simp add: same_shape_def)

lemma same_shape_update:
  assumes "nbegin x = nbegin (t ! k)" and "nend x = nend (t ! k)" and "parent x = parent (t ! k)"
    and "left x = left (t ! k)" and "right x = right (t ! k)"
    and "nn_level x = nn_level (t ! k)" and "split_idx x = split_idx (t ! k)"
  shows "same_shape t (t[k := x])"
proof (cases "k < length t")
  case True
  show ?thesis
    unfolding same_shape_def
  proof (intro conjI allI impI)
    fix i assume "i < length t"
    then show "nbegin (t[k := x] ! i) = nbegin (t ! i)" "nend (t[k := x] ! i) = nend (t ! i)"
      "parent (t[k := x] ! i) = parent (t ! i)" "left (t[k := x] ! i) = left (t ! i)"
      "right (t[k := x] ! i) = right (t ! i)" "nn_level (t[k := x] ! i) = nn_level (t ! i)"
      "split_idx (t[k := x] ! i) = split_idx (t ! i)"
      using assms True by (cases "i = k"; simp)+
  qed simp
next
  case False
  then show ?thesis by (simp add: same_shape_refl list_update_beyond)
qed

lemma same_shape_pull_up_node: "same_shape t (pull_up_node node_idx t)"
  unfolding pull_up_node_def Let_def
  by (cases "left (t ! node_idx) = - 1") (simp_all add: same_shape_refl same_shape_update)

lemma same_shape_pull_up_fold: "same_shape t (fold pull_up_node idxs t)"
proof (induction idxs arbitrary: t)
  case Nil
  then show ?case by (simp add: same_shape_refl)
next
  case (Cons a idxs)
  show ?case
    using same_shape_trans [OF same_shape_pull_up_node Cons.IH] by simp
qed

lemma same_shape_backward_loop:
  assumes "backward_loop n_begin n_end t = Some t'"
  shows "same_shape t t'"
proof (rule backward_loop.raw_induct [where P = "\<lambda>a b t0 t1. same_shape t0 t1", OF _ assms])
  fix bl :: "nat \<Rightarrow> nat \<Rightarrow> bvh_node list \<Rightarrow> bvh_node list option"
  fix nb ne :: nat and t0 t1 :: "bvh_node list"
  assume IH: "\<And>a b c y. bl a b c = Some y \<Longrightarrow> same_shape c y"
    and eq: "(let tree = fold pull_up_node [nb ..< ne] t0
              in if nb = 0 then Some tree
                 else bl (nb - nn_level (tree ! (nb - 1))) nb tree) = Some t1"
  show "same_shape t0 t1"
  proof (cases "nb = 0")
    case True
    then have "t1 = fold pull_up_node [nb ..< ne] t0"
      using eq by (simp add: Let_def)
    then show ?thesis by (simp add: same_shape_pull_up_fold)
  next
    case False
    then have "bl (nb - nn_level (fold pull_up_node [nb ..< ne] t0 ! (nb - 1)))
                 nb (fold pull_up_node [nb ..< ne] t0) = Some t1"
      using eq by (simp add: Let_def)
    then have "same_shape (fold pull_up_node [nb ..< ne] t0) t1"
      by (rule IH)
    then show ?thesis
      using same_shape_trans [OF same_shape_pull_up_fold] by blast
  qed
qed

lemma same_shape_backward_pass: "backward_pass t = Some t' \<Longrightarrow> same_shape t t'"
  by (auto simp: backward_pass_def Let_def same_shape_refl
      dest: same_shape_backward_loop split: if_splits)

lemma construct_bvh_tree_Inr:
  assumes "construct_bvh_tree ndebug indet nparts mc ls us = Some (Inr t)"
  obtains st where "nparts \<le> UINT32_MAX"
    and "build_loop ndebug indet mc ls us
           \<lparr>tree = [root_node nparts], nc_buf = [], ps_buf = [], nplc_buf = [],
            cur_n_nodes = 1, n_levels = 0\<rparr> = Some (Inr st)"
    and "same_shape (tree st) t"
  using assms
  by (auto simp: construct_bvh_tree_def same_shape_backward_pass
      split: if_splits option.splits sum.splits)

lemma inv_levels_init:
  "inv_levels \<lparr>tree = [root_node nparts], nc_buf = [], ps_buf = [], nplc_buf = [],
               cur_n_nodes = 1, n_levels = 0\<rparr>"
  by (simp add: inv_levels_def)

lemma children_ok_same_shape:
  assumes "same_shape t t'" and "i < length t" and "children_ok t i"
  shows "children_ok t' i"
proof -
  have r: "nat (right (t ! i)) < length t" and l: "nat (left (t ! i)) < length t"
    using assms(3) by (auto simp: children_ok_def)
  show ?thesis
    using assms(1,3) assms(2) r l unfolding children_ok_def same_shape_def
    by (metis (no_types, lifting))
qed

text \<open>
  C4. In a completed tree over at least one particle every node has \<open>end > begin\<close>, and
  every node with children (\<open>left \<noteq> -1\<close>) has both children inside the tree, the left
  child starting where the node starts, the right child ending where the node ends, the
  right child starting where the left child ends, and the left child ending before the
  node ends; both children are non-empty.
\<close>

theorem C4_bvh_range_invariant:
  assumes "construct_bvh_tree ndebug indet nparts mc ls us = Some (Inr t)" and "1 \<le> nparts"
  shows "\<forall>i<length t.
           nbegin (t ! i) < nend (t ! i) \<and>
           (left (t ! i) \<noteq> - 1 \<longrightarrow>
              0 < left (t ! i) \<and> 0 < right (t ! i) \<and>
              nat (left (t ! i)) < length t \<and> nat (right (t ! i)) < length t \<and>
              nbegin (t ! nat (left (t ! i))) = nbegin (t ! i) \<and>
              nend (t ! nat (right (t ! i))) = nend (t ! i) \<and>
              nend (t ! nat (left (t ! i))) = nbegin (t ! nat (right (t ! i))) \<and>
              nend (t ! nat (left (t ! i))) < nend (t ! i) \<and>
              nbegin (t ! nat (left (t ! i))) < nend (t ! nat (left (t ! i))) \<and>
              nbegin (t ! nat (right (t ! i))) < nend (t ! nat (right (t ! i))))"
proof -
  obtain st where np: "nparts \<le> UINT32_MAX"
    and bl: "build_loop ndebug indet mc ls us
           \<lparr>tree = [root_node nparts], nc_buf = [], ps_buf = [], nplc_buf = [],
            cur_n_nodes = 1, n_levels = 0\<rparr> = Some (Inr st)"
    and sh: "same_shape (tree st) t"
    using construct_bvh_tree_Inr [OF assms(1)] by blast
  have init: "inv_range nparts \<lparr>tree = [root_node nparts], nc_buf = [], ps_buf = [], nplc_buf = [],
            cur_n_nodes = 1, n_levels = 0\<rparr>"
    using assms(2) by (simp add: inv_range_def root_node_def)
  have "inv_range nparts st \<and> cur_n_nodes st = 0"
    by (rule build_loop_invariant [where I = "inv_range nparts", OF _ inv_levels_init init bl])
       (rule inv_range_level_step [OF _ np])
  then have rng: "\<And>i. i < length (tree st) \<Longrightarrow> nbegin (tree st ! i) < nend (tree st ! i)"
    and chn: "\<And>i. i < length (tree st) \<Longrightarrow> left (tree st ! i) \<noteq> - 1 \<Longrightarrow> children_ok (tree st) i"
    by (simp_all add: inv_range_def)
  have len: "length t = length (tree st)" using sh by (simp add: same_shape_def)
  show ?thesis
  proof (intro allI impI conjI)
    fix i assume i: "i < length t"
    then have i': "i < length (tree st)" using len by simp
    show "nbegin (t ! i) < nend (t ! i)"
      using rng [OF i'] sh i' by (simp add: same_shape_def)
    assume "left (t ! i) \<noteq> - 1"
    then have "left (tree st ! i) \<noteq> - 1"
      using sh i' by (simp add: same_shape_def)
    then have ok: "children_ok t i"
      using children_ok_same_shape [OF sh i' chn [OF i']] by simp
    then show "0 < left (t ! i)" "0 < right (t ! i)"
      "nat (left (t ! i)) < length t" "nat (right (t ! i)) < length t"
      "nbegin (t ! nat (left (t ! i))) = nbegin (t ! i)"
      "nend (t ! nat (right (t ! i))) = nend (t ! i)"
      "nend (t ! nat (left (t ! i))) = nbegin (t ! nat (right (t ! i)))"
      "nend (t ! nat (left (t ! i))) < nend (t ! i)"
      "nbegin (t ! nat (left (t ! i))) < nend (t ! nat (left (t ! i)))"
      "nbegin (t ! nat (right (t ! i))) < nend (t ! nat (right (t ! i)))"
      by (auto simp: children_ok_def)
  qed
qed

section \<open>The construction on two particles\<close>

lemma demo_split_search: "split_search [0, - 1] 0 2 0 = 1"
  unfolding split_search_def
proof (rule lower_bound_partition)
  fix i :: nat
  show "0 \<le> i \<Longrightarrow> i < 1 \<Longrightarrow> ([0, - 1 :: 64 word] ! i AND split_mask 0) < 1"
    by (simp add: split_mask_def)
  show "1 \<le> i \<Longrightarrow> i < 0 + (2 - 0) \<Longrightarrow> \<not> ([0, - 1 :: 64 word] ! i AND split_mask 0) < 1"
  proof -
    assume "1 \<le> i" "i < 0 + (2 - 0)"
    then have "i = 1" by simp
    then show ?thesis by (simp add: split_mask_def)
  qed
qed simp_all

lemma demo_classify_root:
  "classify [0, - 1] ls us
     \<lparr>nbegin = 0, nend = 2, parent = - 1, left = - 1, right = - 1,
      lb = default_lb, ub = default_ub, nn_level = 0, split_idx = 0\<rparr>
   = (\<lparr>nbegin = 0, nend = 2, parent = - 1, left = - 1, right = - 1,
       lb = default_lb, ub = default_ub, nn_level = 0, split_idx = 0\<rparr>, 2, 1)"
proof -
  have "find_split [0, - 1] 0 2 0 1 = (False, 0, 1)"
    by (subst find_split.simps) simp
  then show ?thesis
    by (simp add: classify_def u32_sub_def demo_split_search)
qed

lemma classify_single:
  "u32_sub (nend nd) (nbegin nd) \<le> 1 \<Longrightarrow> classify mc ls us nd = (leaf_aabb ls us nd, 0, 0)"
  by (simp add: classify_def)

lemma demo_level_1:
  "level_step ndebug demo_indet [0, - 1] demo_lbs demo_ubs
     \<lparr>tree = [root_node 2], nc_buf = [], ps_buf = [], nplc_buf = [], cur_n_nodes = 1, n_levels = 0\<rparr>
   = Inr \<lparr>tree = [\<lparr>nbegin = 0, nend = 2, parent = - 1, left = 1, right = 2,
                    lb = default_lb, ub = default_ub, nn_level = 1, split_idx = 0\<rparr>,
                   \<lparr>nbegin = 0, nend = 1, parent = 0, left = - 1, right = - 1,
                    lb = default_lb, ub = default_ub, nn_level = 0, split_idx = 1\<rparr>,
                   \<lparr>nbegin = 1, nend = 2, parent = 0, left = - 1, right = - 1,
                    lb = default_lb, ub = default_ub, nn_level = 0, split_idx = 1\<rparr>],
           nc_buf = [2], ps_buf = [2], nplc_buf = [1], cur_n_nodes = 2, n_levels = 1\<rparr>"
  by (simp add: level_step_def root_node_def demo_classify_root
      UINT32_MAX_def SIZE_MAX_def INT32_MAX_def u32_def u32_sub_def resize_def step1_node_def
      prefix_sum_def scan_node_def step4_node_def left_child_def right_child_def demo_indet_def)
lemma demo_level_2:
  "level_step ndebug demo_indet [0, - 1] demo_lbs demo_ubs
     \<lparr>tree = [\<lparr>nbegin = 0, nend = 2, parent = - 1, left = 1, right = 2,
               lb = default_lb, ub = default_ub, nn_level = 1, split_idx = 0\<rparr>,
              \<lparr>nbegin = 0, nend = 1, parent = 0, left = - 1, right = - 1,
               lb = default_lb, ub = default_ub, nn_level = 0, split_idx = 1\<rparr>,
              \<lparr>nbegin = 1, nend = 2, parent = 0, left = - 1, right = - 1,
               lb = default_lb, ub = default_ub, nn_level = 0, split_idx = 1\<rparr>],
      nc_buf = [2], ps_buf = [2], nplc_buf = [1], cur_n_nodes = 2, n_levels = 1\<rparr>
   = Inr \<lparr>tree = [\<lparr>nbegin = 0, nend = 2, parent = - 1, left = 1, right = 2,
                    lb = default_lb, ub = default_ub, nn_level = 1, split_idx = 0\<rparr>,
                   \<lparr>nbegin = 0, nend = 1, parent = 0, left = - 1, right = - 1,
                    lb = (Fin 0, Fin 0, Fin 0, Fin 0), ub = (Fin 2, Fin 2, Fin 2, Fin 2),
                    nn_level = 2, split_idx = 1\<rparr>,
                   \<lparr>nbegin = 1, nend = 2, parent = 0, left = - 1, right = - 1,
                    lb = (Fin 1, Fin 1, Fin 1, Fin 1), ub = (Fin 3, Fin 3, Fin 3, Fin 3),
                    nn_level = 2, split_idx = 1\<rparr>],
           nc_buf = [0, 0], ps_buf = [0, 0], nplc_buf = [0, 0], cur_n_nodes = 0, n_levels = 2\<rparr>"
proof -
  have upt: "[Suc 0 ..< 3] = [1, 2]" "[0 ..< 2] = [0, 1 :: nat]" "[Suc 0 ..< 2] = [Suc 0]"
    by (simp_all add: upt_rec)
  show ?thesis
    by (simp add: level_step_def classify_single leaf_aabb_def upt Let_def
        UINT32_MAX_def SIZE_MAX_def INT32_MAX_def u32_def u32_sub_def resize_def step1_node_def
        prefix_sum_def scan_node_def step4_node_def demo_lbs_def demo_ubs_def
        default_lb_def default_ub_def std_min_def std_max_def less_float_def)
qed

lemma demo_construct:
  "construct_bvh_tree ndebug demo_indet 2 [0, - 1] demo_lbs demo_ubs = Some (Inr demo_tree)"
proof -
  define st0 where "st0 = \<lparr>tree = [root_node 2], nc_buf = [], ps_buf = [], nplc_buf = [],
                           cur_n_nodes = 1, n_levels = 0\<rparr>"
  define st1 where "st1 =
     \<lparr>tree = [\<lparr>nbegin = 0, nend = 2, parent = - 1, left = 1, right = 2,
               lb = default_lb, ub = default_ub, nn_level = 1, split_idx = 0\<rparr>,
              \<lparr>nbegin = 0, nend = 1, parent = 0, left = - 1, right = - 1,
               lb = default_lb, ub = default_ub, nn_level = 0, split_idx = 1\<rparr>,
              \<lparr>nbegin = 1, nend = 2, parent = 0, left = - 1, right = - 1,
               lb = default_lb, ub = default_ub, nn_level = 0, split_idx = 1\<rparr>],
      nc_buf = [2], ps_buf = [2], nplc_buf = [1], cur_n_nodes = 2, n_levels = 1\<rparr>"
  define t2 where "t2 =
     [\<lparr>nbegin = 0, nend = 2, parent = - 1, left = 1, right = 2,
       lb = default_lb, ub = default_ub, nn_level = 1, split_idx = 0\<rparr>,
      \<lparr>nbegin = 0, nend = 1, parent = 0, left = - 1, right = - 1,
       lb = (Fin 0, Fin 0, Fin 0, Fin 0), ub = (Fin 2, Fin 2, Fin 2, Fin 2),
       nn_level = 2, split_idx = 1\<rparr>,
      \<lparr>nbegin = 1, nend = 2, parent = 0, left = - 1, right = - 1,
       lb = (Fin 1, Fin 1, Fin 1, Fin 1), ub = (Fin 3, Fin 3, Fin 3, Fin 3),
       nn_level = 2, split_idx = 1\<rparr>]"
  define st2 where "st2 =
     \<lparr>tree = t2, nc_buf = [0, 0], ps_buf = [0, 0], nplc_buf = [0, 0],
      cur_n_nodes = 0, n_levels = 2\<rparr>"
  have l1: "level_step ndebug demo_indet [0, - 1] demo_lbs demo_ubs st0 = Inr st1"
    unfolding st0_def st1_def by (rule demo_level_1)
  have l2: "level_step ndebug demo_indet [0, - 1] demo_lbs demo_ubs st1 = Inr st2"
    unfolding st1_def st2_def t2_def by (rule demo_level_2)
  have c: "cur_n_nodes st0 \<noteq> 0" "cur_n_nodes st1 \<noteq> 0" "cur_n_nodes st2 = 0"
    by (simp_all add: st0_def st1_def st2_def)
  have b2: "build_loop ndebug demo_indet [0, - 1] demo_lbs demo_ubs st2 = Some (Inr st2)"
    by (subst build_loop.simps) (simp add: c)
  have b1: "build_loop ndebug demo_indet [0, - 1] demo_lbs demo_ubs st1 = Some (Inr st2)"
    by (subst build_loop.simps) (simp add: c l2 b2)
  have b0: "build_loop ndebug demo_indet [0, - 1] demo_lbs demo_ubs st0 = Some (Inr st2)"
    by (subst build_loop.simps) (simp add: c l1 b1)
  have "backward_loop 0 1 t2 = Some demo_tree"
    by (subst backward_loop.simps)
       (simp add: Let_def pull_up_node_def t2_def demo_tree_def std_min_def std_max_def
          less_float_def)
  then have bp: "backward_pass t2 = Some demo_tree"
    by (simp add: backward_pass_def Let_def t2_def)
  have "tree st2 = t2" by (simp add: st2_def)
  then show ?thesis
    using b0 bp by (simp add: construct_bvh_tree_def UINT32_MAX_def st0_def)
qed

theorem C4_bvh_range_invariant_witness:
  "construct_bvh_tree False demo_indet 2 [0, - 1] demo_lbs demo_ubs = Some (Inr demo_tree) \<and>
   (1::nat) \<le> 2 \<and> (0::nat) < length demo_tree \<and> left (demo_tree ! 0) \<noteq> - 1 \<and>
   nbegin (demo_tree ! 0) < nend (demo_tree ! 0) \<and>
   nbegin (demo_tree ! nat (left (demo_tree ! 0))) = nbegin (demo_tree ! 0) \<and>
   nend (demo_tree ! nat (right (demo_tree ! 0))) = nend (demo_tree ! 0) \<and>
   nend (demo_tree ! nat (left (demo_tree ! 0))) = nbegin (demo_tree ! nat (right (demo_tree ! 0))) \<and>
   nend (demo_tree ! nat (left (demo_tree ! 0))) < nend (demo_tree ! 0)"
proof -
  have h1: "construct_bvh_tree False demo_indet 2 [0, - 1] demo_lbs demo_ubs = Some (Inr demo_tree)"
    by (rule demo_construct)
  have h2: "(1::nat) \<le> 2" by simp
  have h3: "(0::nat) < length demo_tree" "left (demo_tree ! 0) \<noteq> - 1"
    by (simp_all add: demo_tree_def)
  show ?thesis
    using C4_bvh_range_invariant [OF h1 h2, rule_format, OF h3(1)] h1 h3 by simp
qed

section \<open>Bits of the Morton codes\<close>

lemma split_cmp_bit:
  assumes "s \<le> 63"
  shows "((w AND split_mask s) < 1) = (\<not> bit w (63 - s))"
proof -
  have "split_mask s = 2 ^ (63 - s)"
    by (simp add: split_mask_def)
  moreover have "(w AND 2 ^ (63 - s) = 0) = (\<not> bit w (63 - s))"
    by (rule and_exp_eq_0_iff_not_bit)
  ultimately show ?thesis
    by (simp add: word_less_1)
qed

lemma bit_unat_div: "bit (w :: 64 word) n = odd (unat w div 2 ^ n)"
proof -
  have "bit w n = bit (unat w) n" by (simp add: bit_unsigned_iff)
  then show ?thesis by (simp add: bit_iff_odd)
qed

lemma unat_drop_bit_div: "unat (drop_bit n (w :: 64 word)) = unat w div 2 ^ n"
  unfolding unat_drop_bit_eq by (rule drop_bit_eq_div)

lemma prefix_unat:
  fixes w1 w2 :: "64 word"
  shows "(drop_bit n w1 = drop_bit n w2) = (unat w1 div 2 ^ n = unat w2 div 2 ^ n)"
  by (simp add: word_unat_eq_iff unat_drop_bit_div)

lemma prefix_shift:
  assumes "s \<le> 63"
  shows "(x::nat) div 2 ^ (64 - s) = x div 2 ^ (63 - s) div 2"
proof -
  have "64 - s = Suc (63 - s)" using assms by simp
  then have "(2::nat) ^ (64 - s) = 2 ^ (63 - s) * 2" by simp
  then show ?thesis by (simp only: div_mult2_eq)
qed

text \<open>Among sorted codes with a common prefix, the next bit can only go from 0 to 1.\<close>

lemma next_bit_mono:
  fixes w1 w2 :: "64 word"
  assumes "s \<le> 63" and "w1 \<le> w2" and "drop_bit (64 - s) w1 = drop_bit (64 - s) w2"
    and "bit w1 (63 - s)"
  shows "bit w2 (63 - s)"
proof -
  define a where "a = unat w1 div 2 ^ (63 - s)"
  define b where "b = unat w2 div 2 ^ (63 - s)"
  have "a \<le> b"
    using assms(2) by (simp add: a_def b_def word_le_nat_alt div_le_mono)
  moreover have "a div 2 = b div 2"
    using assms(3) by (simp add: prefix_unat prefix_shift [OF assms(1)] a_def b_def)
  moreover have "odd a" using assms(4) by (simp add: bit_unat_div a_def)
  ultimately have "odd b" by presburger
  then show ?thesis by (simp add: bit_unat_div b_def)
qed

text \<open>Codes that agree on \<open>s\<close> bits and on the next bit agree on \<open>s + 1\<close> bits.\<close>

lemma prefix_extend:
  fixes w1 w2 :: "64 word"
  assumes "s \<le> 63" and "drop_bit (64 - s) w1 = drop_bit (64 - s) w2"
    and "bit w1 (63 - s) = bit w2 (63 - s)"
  shows "drop_bit (64 - (s + 1)) w1 = drop_bit (64 - (s + 1)) w2"
proof -
  define a where "a = unat w1 div 2 ^ (63 - s)"
  define b where "b = unat w2 div 2 ^ (63 - s)"
  have "a div 2 = b div 2"
    using assms(2) by (simp add: prefix_unat prefix_shift [OF assms(1)] a_def b_def)
  moreover have "odd a = odd b" using assms(3) by (simp add: bit_unat_div a_def b_def)
  ultimately have "a = b" by presburger
  then show ?thesis
    by (simp add: prefix_unat a_def b_def)
qed

lemma prefix_bits:
  fixes w1 w2 :: "64 word"
  assumes "drop_bit (64 - s) w1 = drop_bit (64 - s) w2" and "i < s" and "s \<le> 64"
  shows "bit w1 (63 - i) = bit w2 (63 - i)"
proof -
  have "bit (drop_bit (64 - s) w1) (s - 1 - i) = bit (drop_bit (64 - s) w2) (s - 1 - i)"
    using assms(1) by simp
  moreover have "64 - s + (s - 1 - i) = 63 - i"
    using assms(2,3) by simp
  ultimately show ?thesis
    by (simp add: bit_drop_bit_eq)
qed

lemma length_takeWhile_upt:
  assumes "s < n" and "\<And>i. i < s \<Longrightarrow> P i" and "\<not> P s"
  shows "length (takeWhile P [0 ..< n]) = s"
proof -
  have "[0 ..< n] = [0 ..< s] @ s # [Suc s ..< n]"
    using assms(1) by (metis less_imp_le_nat upt_add_eq_append upt_conv_Cons zero_le le_add_diff_inverse add.left_neutral)
  moreover have "\<forall>x\<in>set [0 ..< s]. P x"
    using assms(2) by simp
  ultimately have "takeWhile P [0 ..< n] = [0 ..< s] @ takeWhile P (s # [Suc s ..< n])"
    by (simp only: takeWhile_append2)
  then show ?thesis using assms(3) by simp
qed

text \<open>The first bit in which two codes differ, from a common prefix and a flip after it.\<close>

lemma first_diff_bit_flip:
  fixes w1 w2 :: "64 word"
  assumes "s \<le> 63" and "drop_bit (64 - s) w1 = drop_bit (64 - s) w2"
    and "\<not> bit w1 (63 - s)" and "bit w2 (63 - s)"
  shows "first_diff_bit w1 w2 = s"
proof -
  have flip: "bit (w1 XOR w2) (63 - s)"
    using assms(3,4) by (simp add: bit_xor_iff)
  then have nz: "w1 XOR w2 \<noteq> 0" by auto
  have same: "\<And>i. i < s \<Longrightarrow> \<not> bit (w1 XOR w2) (63 - i)"
    using prefix_bits [OF assms(2)] assms(1) by (simp add: bit_xor_iff)
  have "clzll (w1 XOR w2) = s"
    unfolding clzll_def
    by (rule length_takeWhile_upt) (use assms(1) same flip in simp_all)
  then show ?thesis
    using nz by (simp add: first_diff_bit_def Let_def)
qed

section \<open>The split position\<close>

text \<open>On a predicate that can only go from true to false over the range, the binary
  search returns the point where it does.\<close>

lemma lower_bound_monotone:
  assumes mono: "\<And>i j. first \<le> i \<Longrightarrow> i \<le> j \<Longrightarrow> j < first + len \<Longrightarrow> cmp j \<Longrightarrow> cmp i"
  shows "(\<forall>i. first \<le> i \<and> i < lower_bound cmp first len \<longrightarrow> cmp i) \<and>
         (\<forall>i. lower_bound cmp first len \<le> i \<and> i < first + len \<longrightarrow> \<not> cmp i)"
proof -
  define Q where "Q = (\<lambda>i. first \<le> i \<and> (i = first + len \<or> \<not> cmp i))"
  define m where "m = (LEAST i. Q i)"
  have ex: "Q (first + len)" by (simp add: Q_def)
  have Qm: "Q m" unfolding m_def using ex by (rule LeastI)
  have m_le: "m \<le> first + len" unfolding m_def using ex by (rule Least_le)
  have below: "\<And>i. first \<le> i \<Longrightarrow> i < m \<Longrightarrow> cmp i"
  proof -
    fix i assume i: "first \<le> i" "i < m"
    then have "\<not> Q i" unfolding m_def by (meson not_less_Least)
    then show "cmp i" using i(1) by (simp add: Q_def)
  qed
  have above: "\<And>i. m \<le> i \<Longrightarrow> i < first + len \<Longrightarrow> \<not> cmp i"
  proof
    fix i assume i: "m \<le> i" "i < first + len" and c: "cmp i"
    have "first \<le> m" using Qm by (simp add: Q_def)
    then have "cmp m" using mono [OF _ i(1) i(2) c] by simp
    moreover have "m \<noteq> first + len" using i by simp
    ultimately show False using Qm by (simp add: Q_def)
  qed
  have "first \<le> m" using Qm by (simp add: Q_def)
  then have "lower_bound cmp first len = m"
    using m_le below above by (rule lower_bound_partition)
  then show ?thesis using below above by simp
qed

lemma same_prefixD:
  assumes "same_prefix mc b e s" and "b \<le> i" and "i < e" and "b \<le> j" and "j < e"
  shows "drop_bit (64 - s) (mc ! i) = drop_bit (64 - s) (mc ! j)"
  using assms unfolding same_prefix_def by blast

text \<open>Among the sorted codes of a node, which agree on the bits before \<open>s\<close>, the codes
  before the split position have bit \<open>s\<close> clear and the codes from it on have it set.\<close>

lemma split_search_partition:
  assumes srt: "sorted mc" and len: "e \<le> length mc" and be: "b \<le> e" and s: "s \<le> 63"
    and pre: "same_prefix mc b e s"
  shows "(\<forall>i. b \<le> i \<and> i < split_search mc b e s \<longrightarrow> \<not> bit (mc ! i) (63 - s)) \<and>
         (\<forall>i. split_search mc b e s \<le> i \<and> i < e \<longrightarrow> bit (mc ! i) (63 - s))"
proof -
  have cmp: "(\<lambda>i. (mc ! i AND split_mask s) < 1) = (\<lambda>i. \<not> bit (mc ! i) (63 - s))"
    using split_cmp_bit [OF s] by auto
  have eq: "b + (e - b) = e" using be by simp
  have mono: "\<not> bit (mc ! i) (63 - s)"
    if i: "b \<le> i" and ij: "i \<le> j" and je: "j < e" and c: "\<not> bit (mc ! j) (63 - s)" for i j
  proof -
    have "mc ! i \<le> mc ! j"
      using srt ij len je by (simp add: sorted_nth_mono)
    moreover have "drop_bit (64 - s) (mc ! i) = drop_bit (64 - s) (mc ! j)"
      using i ij je by (intro same_prefixD [OF pre]) linarith+
    ultimately show ?thesis
      using next_bit_mono [OF s, of "mc ! i" "mc ! j"] c by blast
  qed
  have "(\<forall>i. b \<le> i \<and> i < lower_bound (\<lambda>i. \<not> bit (mc ! i) (63 - s)) b (e - b)
              \<longrightarrow> \<not> bit (mc ! i) (63 - s)) \<and>
        (\<forall>i. lower_bound (\<lambda>i. \<not> bit (mc ! i) (63 - s)) b (e - b) \<le> i \<and> i < b + (e - b)
              \<longrightarrow> \<not> \<not> bit (mc ! i) (63 - s))"
  proof (rule lower_bound_monotone)
    fix i j
    assume "b \<le> i" and "i \<le> j" and "j < b + (e - b)" and "\<not> bit (mc ! j) (63 - s)"
    then show "\<not> bit (mc ! i) (63 - s)"
      using mono [of i j] unfolding eq by blast
  qed
  then show ?thesis
    unfolding split_search_def cmp eq by blast
qed

text \<open>When the split position is at an end of the range, all the codes agree on bit
  \<open>s\<close> as well.\<close>

lemma same_prefix_next:
  assumes srt: "sorted mc" and len: "e \<le> length mc" and be: "b \<le> e" and s: "s \<le> 63"
    and pre: "same_prefix mc b e s"
    and sp: "split_search mc b e s = b \<or> split_search mc b e s = e"
  shows "same_prefix mc b e (s + 1)"
  unfolding same_prefix_def
proof (intro allI impI)
  fix i j
  assume ij: "b \<le> i \<and> i < e \<and> b \<le> j \<and> j < e"
  note p = split_search_partition [OF srt len be s pre]
  have lo: "\<And>k. b \<le> k \<Longrightarrow> k < split_search mc b e s \<Longrightarrow> \<not> bit (mc ! k) (63 - s)"
    and hi: "\<And>k. split_search mc b e s \<le> k \<Longrightarrow> k < e \<Longrightarrow> bit (mc ! k) (63 - s)"
    using p by blast+
  have "bit (mc ! i) (63 - s) = bit (mc ! j) (63 - s)"
  proof (cases "split_search mc b e s = b")
    case True
    then have "bit (mc ! i) (63 - s)" "bit (mc ! j) (63 - s)"
      using hi [of i] hi [of j] ij by simp_all
    then show ?thesis by simp
  next
    case False
    then have "split_search mc b e s = e" using sp by simp
    then have "\<not> bit (mc ! i) (63 - s)" "\<not> bit (mc ! j) (63 - s)"
      using lo [of i] lo [of j] ij by simp_all
    then show ?thesis by simp
  qed
  moreover have "drop_bit (64 - s) (mc ! i) = drop_bit (64 - s) (mc ! j)"
    using ij by (intro same_prefixD [OF pre]) linarith+
  ultimately show "drop_bit (64 - (s + 1)) (mc ! i) = drop_bit (64 - (s + 1)) (mc ! j)"
    using s by (intro prefix_extend)
qed

text \<open>The search for the split keeps the common prefix and ends at a split position.\<close>

lemma find_split_prefix:
  assumes "find_split mc b e s sp = (False, s', sp')" and "sp = split_search mc b e s"
    and "sorted mc" and "e \<le> length mc" and "b \<le> e" and "s \<le> 63"
    and "same_prefix mc b e s"
  shows "same_prefix mc b e s' \<and> sp' = split_search mc b e s' \<and> s' \<le> 63"
  using assms
proof (induction mc b e s sp rule: find_split.induct)
  case (1 mc b e s sp)
  show ?case
  proof (cases "sp = b \<or> sp = e")
    case True
    then have s: "\<not> 63 \<le> s"
      using "1.prems"(1) by (subst (asm) find_split.simps) (auto split: if_splits)
    then have fs: "find_split mc b e (s + 1) (split_search mc b e (s + 1)) = (False, s', sp')"
      using "1.prems"(1) True by (subst (asm) find_split.simps) auto
    have "same_prefix mc b e (s + 1)"
      using "1.prems"(3-7) True unfolding "1.prems"(2) by (rule same_prefix_next)
    moreover have "s + 1 \<le> 63" using s by simp
    ultimately show ?thesis
      using "1.IH" [OF True s fs refl "1.prems"(3-5)] by blast
  next
    case False
    then have "s' = s" "sp' = sp"
      using "1.prems"(1) by (subst (asm) find_split.simps, simp)+
    then show ?thesis using "1.prems" by simp
  qed
qed

text \<open>A node given children: its split index is the first bit in which the codes on the
  two sides of the split differ, and the codes of each side agree up to that bit.\<close>

lemma classify_split:
  assumes cl: "classify mc ls us nd = (nd', nc, nplc)" and nc: "nc \<noteq> 0"
    and be: "nbegin nd \<le> nend nd" and srt: "sorted mc" and len: "nend nd \<le> length mc"
    and pre: "same_prefix mc (nbegin nd) (nend nd) (split_idx nd)"
  shows "first_diff_bit (mc ! (nbegin nd + nplc - 1)) (mc ! (nbegin nd + nplc)) = split_idx nd'"
    and "same_prefix mc (nbegin nd) (nbegin nd + nplc) (split_idx nd' + 1)"
    and "same_prefix mc (nbegin nd + nplc) (nend nd) (split_idx nd' + 1)"
proof -
  define b where "b = nbegin nd"
  define e where "e = nend nd"
  obtain il s sp where tr:
    "(if 1 < u32_sub (nend nd) (nbegin nd) \<and> split_idx nd \<le> 63
      then find_split mc (nbegin nd) (nend nd) (split_idx nd)
             (split_search mc (nbegin nd) (nend nd) (split_idx nd))
      else (True, split_idx nd, 0)) = (il, s, sp)"
    by (metis prod_cases3)
  have res: "\<not> il" "nd' = nd\<lparr>split_idx := s\<rparr>" "nplc = sp - nbegin nd"
    using cl nc unfolding classify_def Let_def tr by (auto split: if_splits)
  then have guard: "split_idx nd \<le> 63"
    and fs: "find_split mc b e (split_idx nd) (split_search mc b e (split_idx nd)) = (False, s, sp)"
    using tr by (auto simp: b_def e_def split: if_splits)
  have be': "b \<le> e" and len': "e \<le> length mc" and pre': "same_prefix mc b e (split_idx nd)"
    using be len pre by (simp_all add: b_def e_def)
  have rng: "b < sp" "sp < e"
    using find_split_internal [OF fs be' _ _ guard] split_search_range [OF be'] by simp_all
  have fp: "same_prefix mc b e s" "sp = split_search mc b e s" and s63: "s \<le> 63"
    using find_split_prefix [OF fs refl srt len' be' guard pre'] by simp_all
  note p = split_search_partition [OF srt len' be' s63 fp(1), folded fp(2)]
  have lo: "\<And>i. b \<le> i \<Longrightarrow> i < sp \<Longrightarrow> \<not> bit (mc ! i) (63 - s)"
    and hi: "\<And>i. sp \<le> i \<Longrightarrow> i < e \<Longrightarrow> bit (mc ! i) (63 - s)"
    using p by blast+
  have sp_eq: "nbegin nd + nplc = sp" using rng res(3) by (simp add: b_def)
  have s_eq: "split_idx nd' = s" using res(2) by simp
  have "first_diff_bit (mc ! (sp - 1)) (mc ! sp) = s"
  proof (rule first_diff_bit_flip [OF s63])
    show "drop_bit (64 - s) (mc ! (sp - 1)) = drop_bit (64 - s) (mc ! sp)"
      using rng by (intro same_prefixD [OF fp(1)]) linarith+
    show "\<not> bit (mc ! (sp - 1)) (63 - s)" using rng by (intro lo) linarith+
    show "bit (mc ! sp) (63 - s)" using rng by (intro hi) linarith+
  qed
  then show "first_diff_bit (mc ! (nbegin nd + nplc - 1)) (mc ! (nbegin nd + nplc)) = split_idx nd'"
    by (simp add: sp_eq s_eq)
  have "same_prefix mc b sp (s + 1)"
    unfolding same_prefix_def
  proof (intro allI impI)
    fix i j assume ij: "b \<le> i \<and> i < sp \<and> b \<le> j \<and> j < sp"
    have "bit (mc ! i) (63 - s) = bit (mc ! j) (63 - s)" using lo [of i] lo [of j] ij by simp
    moreover have "drop_bit (64 - s) (mc ! i) = drop_bit (64 - s) (mc ! j)"
      using rng ij by (intro same_prefixD [OF fp(1)]) linarith+
    ultimately show "drop_bit (64 - (s + 1)) (mc ! i) = drop_bit (64 - (s + 1)) (mc ! j)"
      using s63 by (intro prefix_extend)
  qed
  then show "same_prefix mc (nbegin nd) (nbegin nd + nplc) (split_idx nd' + 1)"
    by (simp add: sp_eq s_eq b_def)
  have "same_prefix mc sp e (s + 1)"
    unfolding same_prefix_def
  proof (intro allI impI)
    fix i j assume ij: "sp \<le> i \<and> i < e \<and> sp \<le> j \<and> j < e"
    have "bit (mc ! i) (63 - s) = bit (mc ! j) (63 - s)" using hi [of i] hi [of j] ij by simp
    moreover have "drop_bit (64 - s) (mc ! i) = drop_bit (64 - s) (mc ! j)"
      using rng ij by (intro same_prefixD [OF fp(1)]) linarith+
    ultimately show "drop_bit (64 - (s + 1)) (mc ! i) = drop_bit (64 - (s + 1)) (mc ! j)"
      using s63 by (intro prefix_extend)
  qed
  then show "same_prefix mc (nbegin nd + nplc) (nend nd) (split_idx nd' + 1)"
    by (simp add: sp_eq s_eq e_def)
qed

section \<open>The split indices through the construction loop\<close>

lemma inv_split_level_step:
  assumes inv: "inv_range nparts st" and spl: "inv_split mc st" and np: "nparts \<le> UINT32_MAX"
    and srt: "sorted mc" and lmc: "length mc = nparts"
    and res: "level_step ndebug indet mc ls us st = Inr st'"
  shows "inv_split mc st'"
proof -
  have le: "cur_n_nodes st \<le> length (tree st)"
    and rng: "\<And>i. i < length (tree st) \<Longrightarrow>
                 nbegin (tree st ! i) < nend (tree st ! i) \<and> nend (tree st ! i) \<le> nparts"
    and chn: "\<And>i. i < length (tree st) - cur_n_nodes st \<Longrightarrow> left (tree st ! i) \<noteq> - 1 \<Longrightarrow>
                 children_ok (tree st) i"
    and lvl: "\<And>i. i < length (tree st) \<Longrightarrow> length (tree st) - cur_n_nodes st \<le> i \<Longrightarrow>
                 left (tree st ! i) = - 1"
    using inv by (simp_all add: inv_range_def)
  have sok: "\<And>i. i < length (tree st) - cur_n_nodes st \<Longrightarrow> left (tree st ! i) \<noteq> - 1 \<Longrightarrow>
                 split_ok mc (tree st) i"
    and pre: "\<And>i. i < length (tree st) \<Longrightarrow> length (tree st) - cur_n_nodes st \<le> i \<Longrightarrow>
                 same_prefix mc (nbegin (tree st ! i)) (nend (tree st ! i)) (split_idx (tree st ! i))"
    using spl by (simp_all add: inv_split_def)
  note r = level_step_nodes [OF le res]
  have np32: "nparts < 2 ^ 32" using np by (simp add: UINT32_MAX_def)
  text \<open>The ranges of the nodes already in the tree are unchanged.\<close>
  have old: "nend (tree st' ! i) = nend (tree st ! i)"
    if "i < length (tree st)" for i
  proof (cases "i < length (tree st) - cur_n_nodes st")
    case True
    then show ?thesis using r(4) by simp
  next
    case False
    then have "length (tree st) - cur_n_nodes st \<le> i" by simp
    from r(5) [OF this that] obtain nd' nc nplc p where
      "classify mc ls us (tree st ! i) = (nd', nc, nplc)"
      "tree st' ! i = finalise (cur_n_nodes st) (length (tree st) + p) (nd', nc, nplc)"
      by blast
    then show ?thesis
      using classify_fields(2) [of mc ls us "tree st ! i" nd' nc nplc]
      by (simp add: finalise_fields [OF refl])
  qed
  text \<open>The two children of an internal node of the level.\<close>
  have kid: "nbegin (left_child j nd' nplc) = nbegin (tree st ! j) \<and>
             nend (left_child j nd' nplc) = nbegin (tree st ! j) + nplc \<and>
             nbegin (right_child j nd' nplc) = nbegin (tree st ! j) + nplc \<and>
             nend (right_child j nd' nplc) = nend (tree st ! j) \<and>
             split_idx (left_child j nd' nplc) = split_idx nd' + 1 \<and>
             split_idx (right_child j nd' nplc) = split_idx nd' + 1 \<and>
             first_diff_bit (mc ! (nbegin (tree st ! j) + nplc - 1))
                            (mc ! (nbegin (tree st ! j) + nplc)) = split_idx nd' \<and>
             same_prefix mc (nbegin (tree st ! j)) (nbegin (tree st ! j) + nplc)
               (split_idx nd' + 1) \<and>
             same_prefix mc (nbegin (tree st ! j) + nplc) (nend (tree st ! j))
               (split_idx nd' + 1)"
    if "j < length (tree st)" and "length (tree st) - cur_n_nodes st \<le> j"
      and "classify mc ls us (tree st ! j) = (nd', nc, nplc)" and "nc \<noteq> 0"
    for j nd' nc nplc
  proof -
    have b: "nbegin (tree st ! j) \<le> nend (tree st ! j)" "nend (tree st ! j) \<le> nparts"
      using rng [OF that(1)] by simp_all
    have bl: "nend (tree st ! j) \<le> length mc" using b(2) lmc by simp
    note ci = classify_internal [OF that(3,4) b(1)]
    note cf = classify_fields(1,2) [OF that(3)]
    note cs = classify_split [OF that(3,4) b(1) srt bl pre [OF that(1,2)]]
    have "nbegin (tree st ! j) + nplc < 2 ^ 32"
      using ci(2) b(2) np32 by simp
    moreover have "split_idx nd' + 1 < 2 ^ 32"
      using ci(3) by simp
    ultimately have
      "nbegin (left_child j nd' nplc) = nbegin (tree st ! j)"
      "nend (left_child j nd' nplc) = nbegin (tree st ! j) + nplc"
      "nbegin (right_child j nd' nplc) = nbegin (tree st ! j) + nplc"
      "nend (right_child j nd' nplc) = nend (tree st ! j)"
      "split_idx (left_child j nd' nplc) = split_idx nd' + 1"
      "split_idx (right_child j nd' nplc) = split_idx nd' + 1"
      using cf by (simp_all add: left_child_def right_child_def u32_id)
    then show ?thesis
      using cs by (intro conjI)
  qed
  show ?thesis
    unfolding inv_split_def
  proof (intro conjI allI impI)
    fix i assume i: "i < length (tree st') - cur_n_nodes st'"
      and int: "left (tree st' ! i) \<noteq> - 1"
    have il: "i < length (tree st)" using i r(1) by simp
    show "split_ok mc (tree st') i"
    proof (cases "i < length (tree st) - cur_n_nodes st")
      case True
      have same: "tree st' ! i = tree st ! i" using r(4) [OF True] .
      then have int': "left (tree st ! i) \<noteq> - 1" using int by simp
      have ok: "children_ok (tree st) i" using chn [OF True int'] .
      then have "nat (left (tree st ! i)) < length (tree st)"
        by (auto simp: children_ok_def)
      then have "nend (tree st' ! nat (left (tree st ! i))) = nend (tree st ! nat (left (tree st ! i)))"
        by (rule old)
      then show ?thesis
        using sok [OF True int'] unfolding split_ok_def same by simp
    next
      case False
      then have lv: "length (tree st) - cur_n_nodes st \<le> i" by simp
      from r(5) [OF this il] obtain nd' nc nplc p where
        c: "classify mc ls us (tree st ! i) = (nd', nc, nplc)"
          "tree st' ! i = finalise (cur_n_nodes st) (length (tree st) + p) (nd', nc, nplc)"
          "nc \<noteq> 0 \<longrightarrow>
             length (tree st) + p + 1 < length (tree st') \<and>
             tree st' ! (length (tree st) + p) = left_child i nd' nplc \<and>
             tree st' ! (length (tree st) + p + 1) = right_child i nd' nplc"
        by blast
      have "left nd' = - 1"
        using classify_fields(4) [OF c(1)] lvl [OF il] False by simp
      then have nz: "nc \<noteq> 0"
        using int c(2) by (cases "nc = 0") (simp_all add: finalise_fields [OF refl])
      have lft: "nat (left (tree st' ! i)) = length (tree st) + p"
        using nz c(2) by (simp add: finalise_fields [OF refl])
      have si: "split_idx (tree st' ! i) = split_idx nd'"
        using c(2) by (simp add: finalise_fields [OF refl])
      have lc: "tree st' ! (length (tree st) + p) = left_child i nd' nplc"
        using c(3) nz by simp
      note k = kid [OF il lv c(1) nz]
      have "nend (left_child i nd' nplc) = nbegin (tree st ! i) + nplc"
        using k by blast
      moreover have "first_diff_bit (mc ! (nbegin (tree st ! i) + nplc - 1))
                            (mc ! (nbegin (tree st ! i) + nplc)) = split_idx nd'"
        using k by blast
      ultimately show ?thesis
        unfolding split_ok_def lft si lc by simp
    qed
  next
    fix i assume i: "i < length (tree st')" and lv: "length (tree st') - cur_n_nodes st' \<le> i"
    then have "length (tree st) \<le> i" using r(1) by simp
    from r(6) [OF this i] obtain j nd' nc nplc where
      j: "length (tree st) - cur_n_nodes st \<le> j" "j < length (tree st)"
        "classify mc ls us (tree st ! j) = (nd', nc, nplc)" "nc \<noteq> 0"
        "tree st' ! i = left_child j nd' nplc \<or> tree st' ! i = right_child j nd' nplc"
      by blast
    note k = kid [OF j(2,1,3,4)]
    show "same_prefix mc (nbegin (tree st' ! i)) (nend (tree st' ! i)) (split_idx (tree st' ! i))"
    proof (cases "tree st' ! i = left_child j nd' nplc")
      case True
      have "same_prefix mc (nbegin (tree st ! j)) (nbegin (tree st ! j) + nplc) (split_idx nd' + 1)"
        using k by blast
      moreover have "nbegin (left_child j nd' nplc) = nbegin (tree st ! j)"
        "nend (left_child j nd' nplc) = nbegin (tree st ! j) + nplc"
        "split_idx (left_child j nd' nplc) = split_idx nd' + 1"
        using k by blast+
      ultimately show ?thesis unfolding True by simp
    next
      case False
      then have R: "tree st' ! i = right_child j nd' nplc" using j(5) by simp
      have "same_prefix mc (nbegin (tree st ! j) + nplc) (nend (tree st ! j)) (split_idx nd' + 1)"
        using k by blast
      moreover have "nbegin (right_child j nd' nplc) = nbegin (tree st ! j) + nplc"
        "nend (right_child j nd' nplc) = nend (tree st ! j)"
        "split_idx (right_child j nd' nplc) = split_idx nd' + 1"
        using k by blast+
      ultimately show ?thesis unfolding R by simp
    qed
  qed
qed

lemma same_prefix_0: "same_prefix mc b e 0"
  by (simp add: same_prefix_def drop_bit_word_beyond)

section \<open>The split indices of the completed tree\<close>

lemma construct_no_particle:
  assumes "construct_bvh_tree ndebug indet 0 mc ls us = Some (Inr t)"
  shows "t = [(root_node 0)\<lparr>nn_level := 1\<rparr>]"
proof -
  have np: "0 \<le> UINT32_MAX" by simp
  show ?thesis
    using assms construct_single_leaf [OF classify_no_particle np, of ndebug indet mc ls us]
    by (simp split: if_splits)
qed

lemma inv_split_init:
  "inv_split mc \<lparr>tree = [root_node nparts], nc_buf = [], ps_buf = [], nplc_buf = [],
                  cur_n_nodes = 1, n_levels = 0\<rparr>"
  by (simp add: inv_split_def root_node_def same_prefix_0)

text \<open>
  C5. In a completed tree built over sorted Morton codes, one code for each particle, the
  split index of every node with children (\<open>left \<noteq> -1\<close>) is the index, counted from the
  most significant bit, of the first bit in which the codes at the positions
  \<open>tree[left].end - 1\<close> and \<open>tree[left].end\<close> differ.
\<close>

theorem C5_bit_flip_split:
  assumes "construct_bvh_tree ndebug indet nparts mc ls us = Some (Inr t)"
    and "sorted mc" and "length mc = nparts"
    and "i < length t" and "left (t ! i) \<noteq> - 1"
  shows "split_idx (t ! i)
         = first_diff_bit (mc ! (nend (t ! nat (left (t ! i))) - 1))
                          (mc ! nend (t ! nat (left (t ! i))))"
proof (cases "nparts = 0")
  case True
  then have "t = [(root_node 0)\<lparr>nn_level := 1\<rparr>]"
    using assms(1) construct_no_particle [of ndebug indet mc ls us t] by simp
  then have "left (t ! i) = - 1"
    using assms(4) by (simp add: root_node_def)
  then show ?thesis using assms(5) by simp
next
  case False
  obtain st where np: "nparts \<le> UINT32_MAX"
    and bl: "build_loop ndebug indet mc ls us
           \<lparr>tree = [root_node nparts], nc_buf = [], ps_buf = [], nplc_buf = [],
            cur_n_nodes = 1, n_levels = 0\<rparr> = Some (Inr st)"
    and sh: "same_shape (tree st) t"
    using construct_bvh_tree_Inr [OF assms(1)] by blast
  have init: "inv_range nparts \<lparr>tree = [root_node nparts], nc_buf = [], ps_buf = [], nplc_buf = [],
            cur_n_nodes = 1, n_levels = 0\<rparr>"
    using False by (simp add: inv_range_def root_node_def)
  have fin: "(inv_range nparts st \<and> inv_split mc st) \<and> cur_n_nodes st = 0"
  proof (rule build_loop_invariant
      [where I = "\<lambda>st. inv_range nparts st \<and> inv_split mc st", OF _ inv_levels_init _ bl])
    fix st st'
    assume I: "inv_range nparts st \<and> inv_split mc st"
      and res: "level_step ndebug indet mc ls us st = Inr st'"
    show "inv_range nparts st' \<and> inv_split mc st'"
      using inv_range_level_step [OF _ np res] inv_split_level_step [OF _ _ np assms(2,3) res] I
      by blast
  next
    show "inv_range nparts \<lparr>tree = [root_node nparts], nc_buf = [], ps_buf = [], nplc_buf = [],
            cur_n_nodes = 1, n_levels = 0\<rparr> \<and>
          inv_split mc \<lparr>tree = [root_node nparts], nc_buf = [], ps_buf = [], nplc_buf = [],
            cur_n_nodes = 1, n_levels = 0\<rparr>"
      using init inv_split_init by blast
  qed
  have len: "length t = length (tree st)" using sh by (simp add: same_shape_def)
  have i': "i < length (tree st)" using assms(4) len by simp
  have int: "left (tree st ! i) \<noteq> - 1"
    using assms(5) sh i' by (simp add: same_shape_def)
  have "children_ok (tree st) i"
    using fin i' int by (simp add: inv_range_def)
  then have l: "nat (left (tree st ! i)) < length (tree st)"
    by (auto simp: children_ok_def)
  have "split_ok mc (tree st) i"
    using fin i' int by (simp add: inv_split_def)
  moreover have "split_idx (t ! i) = split_idx (tree st ! i)" "left (t ! i) = left (tree st ! i)"
    using sh i' by (simp_all add: same_shape_def)
  moreover have "nend (t ! nat (left (tree st ! i))) = nend (tree st ! nat (left (tree st ! i)))"
    using sh l by (simp add: same_shape_def)
  ultimately show ?thesis
    by (simp add: split_ok_def)
qed

theorem C5_bit_flip_split_witness:
  "construct_bvh_tree False demo_indet 2 [0, - 1] demo_lbs demo_ubs = Some (Inr demo_tree) \<and>
   sorted [0, - 1 :: 64 word] \<and> length [0, - 1 :: 64 word] = 2 \<and>
   (0::nat) < length demo_tree \<and> left (demo_tree ! 0) \<noteq> - 1 \<and>
   split_idx (demo_tree ! 0)
     = first_diff_bit ([0, - 1] ! (nend (demo_tree ! nat (left (demo_tree ! 0))) - 1))
                      ([0, - 1] ! nend (demo_tree ! nat (left (demo_tree ! 0))))"
proof -
  have h1: "construct_bvh_tree False demo_indet 2 [0, - 1] demo_lbs demo_ubs = Some (Inr demo_tree)"
    by (rule demo_construct)
  have h2: "sorted [0, - 1 :: 64 word]" "length [0, - 1 :: 64 word] = 2"
    by simp_all
  have h3: "(0::nat) < length demo_tree" "left (demo_tree ! 0) \<noteq> - 1"
    by (simp_all add: demo_tree_def)
  show ?thesis
    using C5_bit_flip_split [OF h1 h2 h3] h1 h2 h3 by blast
qed

section \<open>Properties of the rounding\<close>

lemma bit_length_nonneg: "0 \<le> bit_length m"
proof (induction m rule: bit_length.induct)
  case (1 m)
  show ?case
  proof (cases "m \<le> 0")
    case True
    then show ?thesis by (subst bit_length.simps) simp
  next
    case False
    then show ?thesis using "1.IH" by (subst bit_length.simps) simp
  qed
qed

lemma bit_length_bounds:
  "0 < m \<Longrightarrow> 2 ^ nat (bit_length m - 1) \<le> m \<and> m < 2 ^ nat (bit_length m)"
proof (induction m rule: bit_length.induct)
  case (1 m)
  show ?case
  proof (cases "m = 1")
    case True
    have "bit_length (1 div 2) = 0" by (subst bit_length.simps) simp
    then have "bit_length 1 = 1" by (subst bit_length.simps) simp
    then show ?thesis using True by simp
  next
    case False
    then have h: "0 < m div 2" using "1.prems" by simp
    have nn: "0 \<le> bit_length (m div 2) - 1"
      using h bit_length_nonneg [of "m div 2 div 2"] by (subst bit_length.simps) simp
    have bl: "bit_length m = bit_length (m div 2) + 1"
      using "1.prems" by (subst bit_length.simps) simp
    have IH: "2 ^ nat (bit_length (m div 2) - 1) \<le> m div 2"
      "m div 2 < 2 ^ nat (bit_length (m div 2))"
      using "1.IH" h "1.prems" by simp_all
    have e1: "(2::int) ^ nat (bit_length m - 1) = 2 * 2 ^ nat (bit_length (m div 2) - 1)"
      using nn by (simp add: bl nat_diff_distrib flip: power_Suc)
    have e2: "(2::int) ^ nat (bit_length m) = 2 * 2 ^ nat (bit_length (m div 2))"
      using nn by (simp add: bl nat_add_distrib)
    show ?thesis
      unfolding e1 e2 using IH by linarith
  qed
qed

text \<open>\<open>round_even m k\<close> is an integer nearest to \<open>m / 2^k\<close>.\<close>

lemma round_even_nearest: "\<bar>2 * (round_even m k * 2 ^ k - m)\<bar> \<le> 2 ^ k"
proof -
  define q where "q = m div 2 ^ k"
  define r where "r = m mod 2 ^ k"
  have m: "m = q * 2 ^ k + r" unfolding q_def r_def by (rule div_mult_mod_eq [symmetric])
  have r: "0 \<le> r" "r < 2 ^ k" by (simp_all add: r_def)
  have re: "round_even m k = (if 2 * r < 2 ^ k then q else if 2 ^ k < 2 * r then q + 1
                              else if even q then q else q + 1)"
    by (simp add: round_even_def Let_def q_def r_def)
  have "(q + 1) * 2 ^ k - m = 2 ^ k - r" "q * 2 ^ k - m = - r"
    by (simp_all add: m algebra_simps)
  then show ?thesis
    unfolding re using r by (auto simp: abs_if)
qed

text \<open>
  The rounding on examples: a tie goes to the even neighbour, also in the subnormal
  range and for negative numbers; the largest finite \<open>double\<close> and the overflow above it;
  the conversion to \<open>float\<close> and the neighbours that \<open>nextafter\<close> returns.
\<close>

lemma rounding_examples:
  "mk_double (2 ^ 53 + 1) 0 = Dbl (2 ^ 52) 1"
  "mk_double (2 ^ 53 + 3) 0 = Dbl (2 ^ 52 + 2) 1"
  "mk_double (- (2 ^ 53 + 3)) 0 = Dbl (- (2 ^ 52 + 2)) 1"
  "mk_double 1 (- 1075) = Dbl 0 (- 1074)"
  "mk_double 3 (- 1075) = Dbl 2 (- 1074)"
  "mk_double (2 ^ 53 - 1) 971 = Dbl (2 ^ 53 - 1) 971"
  "mk_double (2 ^ 54 - 1) 970 = DPInf"
  "cast_float (Dbl 3 (- 150)) = Flt 2 (- 149)"
  "nextafter (cast_float (Dbl 0 0)) FPInf = Flt 1 (- 149)"
  "nextafter (cast_float (Dbl (- 3450) 0)) FNInf = Flt (- 14131201) (- 12)"
  "nextafter (Flt 1 0) FNInf = Flt (2 ^ 24 - 1) (- 24)"
  "nextafter (Flt (2 ^ 24 - 1) 104) FPInf = FPInf"
  by code_simp+

section \<open>The box of a particle on a concrete input\<close>

lemma literal_0_46_nearest:
  "\<bar>valof literal_0_46 - 46 / 100\<bar> < 1 / 2 ^ 55 \<and>
   (2::int) ^ 52 \<le> 8286623314361713 \<and> (8286623314361713::int) < 2 ^ 53"
  by (simp add: valof_def literal_0_46_def)

lemma taylor_value_sum:
  "taylor_value c h = (\<Sum>i<length c. valof (c ! i) * h ^ i)"
proof (induction c)
  case Nil
  show ?case by simp
next
  case (Cons a c)
  have "(\<Sum>i<length (a # c). valof ((a # c) ! i) * h ^ i)
        = valof a + (\<Sum>i<length c. valof (c ! i) * h ^ Suc i)"
    by (simp only: length_Cons sum.lessThan_Suc_shift nth_Cons_0 nth_Cons_Suc power_0
        mult_1_right)
  also have "(\<Sum>i<length c. valof (c ! i) * h ^ Suc i) = h * (\<Sum>i<length c. valof (c ! i) * h ^ i)"
    by (simp add: sum_distrib_left mult_ac)
  finally show ?case using Cons.IH by simp
qed

lemma demo_times: "valof chunk_size = 8286623314361713 / 2 ^ 54"
  "valof delta_t = 8286623314361713 / 2 ^ 51"
  by code_simp+

text \<open>
  C1, evaluated. One particle in one batch, integrated at order 1 in one substep
  \<open>[0, delta_t]\<close> with \<open>x(h) = -3450 + 7500\<cdot>h\<close>. Chunk 0 is \<open>[0, chunk_size]\<close>, with
  \<open>chunk_size\<close> the \<open>double\<close> nearest to 0.46, so the time \<open>chunk_size\<close> lies in the
  substep and in the chunk. The product \<open>7500 \<cdot> chunk_size\<close> is rounded down to 3450, the
  interval computed for \<open>x\<close> is \<open>[-3450, 0]\<close>, and the upper bound stored for the particle
  in chunk 0 is the least positive \<open>float\<close>, \<open>2^-149\<close>. The value of the polynomial at
  \<open>chunk_size\<close> is \<open>675 / 2^52\<close>, above the stored upper bound.
\<close>

theorem C1_containment_evaluated:
  "row 1 0 (ubs (integrate_aabb (\<lambda>idx. True)
                  (particle_aabb high_part_times 1 (\<lambda>pidx. demo_substeps))
                  default_lb default_ub 1 1 [(0, 1)] empty_sim_data))
     = [(Fin (1 / 2 ^ 149), Fin (1 / 2 ^ 149), Fin (1 / 2 ^ 149), Fin (1 + 1 / 2 ^ 23))]
   \<and> valof chunk_size = 8286623314361713 / 2 ^ 54
   \<and> valof delta_t = 8286623314361713 / 2 ^ 51
   \<and> taylor_value (tc_x demo_substeps) (valof chunk_size) = 675 / 2 ^ 52
   \<and> Fin (1 / 2 ^ 149) < Fin (taylor_value (tc_x demo_substeps) (valof chunk_size))"
proof -
  have "row 1 0 (ubs (integrate_aabb (\<lambda>idx. True)
                  (particle_aabb high_part_times 1 (\<lambda>pidx. demo_substeps))
                  default_lb default_ub 1 1 [(0, 1)] empty_sim_data))
     = [(Fin (1 / 2 ^ 149), Fin (1 / 2 ^ 149), Fin (1 / 2 ^ 149), Fin (1 + 1 / 2 ^ 23))]"
    by code_simp
  moreover have "taylor_value (tc_x demo_substeps) (valof chunk_size) = 675 / 2 ^ 52"
    by code_simp
  moreover have "Fin (1 / 2 ^ 149) < Fin (taylor_value (tc_x demo_substeps) (valof chunk_size))"
    by code_simp
  ultimately show ?thesis
    using demo_times by blast
qed

end
